theory Spec2Isabelle
  imports
    Complex_Main
    "HOL-Library.Multiset"
    "HOL-Library.Char_ord"
    "HOL-Library.List_Lexorder"
begin

section \<open>Python values used by \<^verbatim>\<open>parse_timeline_by_day.py\<close>\<close>

subsection \<open>Exceptions\<close>

text \<open>
  The exceptions the program can raise. \<open>ValueError\<close> carries its message: the
  splitting generator raises it for a reversed segment, \<^verbatim>\<open>datetime.fromisoformat\<close>
  raises it for malformed text. \<open>KeyError\<close> carries the missing key.
\<close>

datatype error =
    ValueError string
  | KeyError string
  | TypeError
  | AttributeError
  | IndexError
  | OverflowError

subsection \<open>Dates, times and datetimes\<close>

text \<open>
  \<^verbatim>\<open>datetime.date\<close>, \<^verbatim>\<open>datetime.time\<close> and \<^verbatim>\<open>datetime.datetime\<close>, with the fields
  Python stores. The only \<^verbatim>\<open>tzinfo\<close> objects that \<^verbatim>\<open>fromisoformat\<close> builds are fixed
  offsets, so \<open>tzinfo\<close> is \<open>None\<close> (naive) or the UTC offset in microseconds.
\<close>

record date =
  year :: nat
  month :: nat
  day :: nat

record time =
  hour :: nat
  minute :: nat
  second :: nat
  microsecond :: nat

record datetime =
  dt_date :: date
  dt_time :: time
  tzinfo :: "int option"

definition MAXYEAR :: nat where
  "MAXYEAR = 9999"

definition is_leap :: "nat \<Rightarrow> bool" where
  "is_leap y = (y mod 4 = 0 \<and> (y mod 100 \<noteq> 0 \<or> y mod 400 = 0))"

definition days_in_month :: "nat \<Rightarrow> nat \<Rightarrow> nat" where
  "days_in_month y m =
     (if m = 2 then (if is_leap y then 29 else 28)
      else if m = 4 \<or> m = 6 \<or> m = 9 \<or> m = 11 then 30
      else if 1 \<le> m \<and> m \<le> 12 then 31
      else 0)"

definition days_in_year :: "nat \<Rightarrow> nat" where
  "days_in_year y = (if is_leap y then 366 else 365)"

definition days_before_year :: "nat \<Rightarrow> nat" where
  "days_before_year y =
     (let y1 = y - 1 in y1 * 365 + y1 div 4 - y1 div 100 + y1 div 400)"

definition days_before_month :: "nat \<Rightarrow> nat \<Rightarrow> nat" where
  "days_before_month y m = sum_list (map (days_in_month y) [1..<m])"

definition toordinal :: "date \<Rightarrow> nat" where
  "toordinal d =
     days_before_year (year d) + days_before_month (year d) (month d) + day d"

definition valid_date :: "date \<Rightarrow> bool" where
  "valid_date d =
     (1 \<le> year d \<and> year d \<le> MAXYEAR \<and> 1 \<le> month d \<and> month d \<le> 12 \<and>
      1 \<le> day d \<and> day d \<le> days_in_month (year d) (month d))"

definition valid_time :: "time \<Rightarrow> bool" where
  "valid_time t =
     (hour t < 24 \<and> minute t < 60 \<and> second t < 60 \<and> microsecond t < 1000000)"

definition valid_tzinfo :: "int option \<Rightarrow> bool" where
  "valid_tzinfo tz =
     (case tz of None \<Rightarrow> True | Some off \<Rightarrow> - 86400000000 < off \<and> off < 86400000000)"

definition valid_datetime :: "datetime \<Rightarrow> bool" where
  "valid_datetime dt =
     (valid_date (dt_date dt) \<and> valid_time (dt_time dt) \<and> valid_tzinfo (tzinfo dt))"

text \<open>\<^verbatim>\<open>date.__lt__\<close>: the comparison of the triples (year, month, day).\<close>

definition date_lt :: "date \<Rightarrow> date \<Rightarrow> bool" where
  "date_lt a b =
     (year a < year b \<or>
      (year a = year b \<and> (month a < month b \<or> (month a = month b \<and> day a < day b))))"

text \<open>
  \<^verbatim>\<open>d + timedelta(days=1)\<close>: the following calendar day, \<^verbatim>\<open>OverflowError\<close> past
  the last day of \<open>MAXYEAR\<close>. Python computes it through the ordinal of the date;
  \<open>date_add_day_valid\<close> below shows that on a valid date the ordinal grows by one.
\<close>

definition date_add_day :: "date \<Rightarrow> error + date" where
  "date_add_day d =
     (let n = (if day d < days_in_month (year d) (month d) then d\<lparr>day := day d + 1\<rparr>
               else if month d < 12 then d\<lparr>month := month d + 1, day := 1\<rparr>
               else d\<lparr>year := year d + 1, month := 1, day := 1\<rparr>)
      in if year n > MAXYEAR then Inl OverflowError else Inr n)"

definition time_min :: time where
  "time_min = \<lparr>hour = 0, minute = 0, second = 0, microsecond = 0\<rparr>"

text \<open>\<^verbatim>\<open>datetime.combine(d, t, tzinfo=tz)\<close>.\<close>

definition combine :: "date \<Rightarrow> time \<Rightarrow> int option \<Rightarrow> datetime" where
  "combine d t tz = \<lparr>dt_date = d, dt_time = t, tzinfo = tz\<rparr>"

text \<open>
  The microseconds from the start of ordinal day 0 to the wall-clock reading of a
  datetime, and the same with the UTC offset taken off.
\<close>

definition time_us :: "time \<Rightarrow> int" where
  "time_us t =
     (int (hour t) * 3600 + int (minute t) * 60 + int (second t)) * 1000000
       + int (microsecond t)"

definition local_us :: "datetime \<Rightarrow> int" where
  "local_us dt = int (toordinal (dt_date dt)) * 86400000000 + time_us (dt_time dt)"

definition utc_us :: "datetime \<Rightarrow> int" where
  "utc_us dt = local_us dt - (case tzinfo dt of None \<Rightarrow> 0 | Some off \<Rightarrow> off)"

text \<open>
  \<^verbatim>\<open>a < b\<close> on datetimes: two naive values compare by wall clock, two aware values
  by instant, and a naive with an aware one raises \<^verbatim>\<open>TypeError\<close>. (Python compares
  the fields as tuples when both values carry the same offset; on valid datetimes that
  is the order of \<open>local_us\<close>.)
\<close>

definition dt_lt :: "datetime \<Rightarrow> datetime \<Rightarrow> error + bool" where
  "dt_lt a b =
     (if (tzinfo a = None) = (tzinfo b = None) then Inr (utc_us a < utc_us b)
      else Inl TypeError)"

text \<open>\<^verbatim>\<open>a == b\<close> on datetimes never raises: a naive and an aware value are unequal.\<close>

definition dt_eq :: "datetime \<Rightarrow> datetime \<Rightarrow> bool" where
  "dt_eq a b = ((tzinfo a = None) = (tzinfo b = None) \<and> utc_us a = utc_us b)"

text \<open>\<^verbatim>\<open>a >= b\<close>, the hypothesis of the splitting properties.\<close>

definition dt_ge :: "datetime \<Rightarrow> datetime \<Rightarrow> error + bool" where
  "dt_ge a b =
     (if (tzinfo a = None) = (tzinfo b = None) then Inr (utc_us b \<le> utc_us a)
      else Inl TypeError)"

text \<open>
  \<^verbatim>\<open>a - b\<close> on datetimes, as the microseconds of the resulting \<^verbatim>\<open>timedelta\<close>.
\<close>

definition dt_sub :: "datetime \<Rightarrow> datetime \<Rightarrow> error + int" where
  "dt_sub a b =
     (if (tzinfo a = None) = (tzinfo b = None) then Inr (utc_us a - utc_us b)
      else Inl TypeError)"

subsection \<open>Rendering: \<^verbatim>\<open>isoformat\<close>\<close>

definition digit_char :: "nat \<Rightarrow> char" where
  "digit_char n = ''0123456789'' ! n"

fun dec :: "nat \<Rightarrow> string" where
  "dec n = (if n < 10 then [digit_char n] else dec (n div 10) @ [digit_char (n mod 10)])"

declare dec.simps [simp del]

text \<open>The format \<^verbatim>\<open>%0wd\<close>.\<close>

definition zpad :: "nat \<Rightarrow> nat \<Rightarrow> string" where
  "zpad w n = replicate (w - length (dec n)) (CHR ''0'') @ dec n"

definition date_isoformat :: "date \<Rightarrow> string" where
  "date_isoformat d =
     zpad 4 (year d) @ ''-'' @ zpad 2 (month d) @ ''-'' @ zpad 2 (day d)"

definition time_isoformat :: "time \<Rightarrow> string" where
  "time_isoformat t =
     zpad 2 (hour t) @ '':'' @ zpad 2 (minute t) @ '':'' @ zpad 2 (second t)
       @ (if microsecond t \<noteq> 0 then ''.'' @ zpad 6 (microsecond t) else [])"

definition format_offset :: "int option \<Rightarrow> string" where
  "format_offset tz =
     (case tz of
        None \<Rightarrow> []
      | Some off \<Rightarrow>
          (let a = nat \<bar>off\<bar>;
               hh = a div 3600000000;
               mm = (a mod 3600000000) div 60000000;
               ss = (a mod 60000000) div 1000000;
               us = a mod 1000000
           in (if off < 0 then ''-'' else ''+'') @ zpad 2 hh @ '':'' @ zpad 2 mm
                @ (if ss \<noteq> 0 \<or> us \<noteq> 0 then '':'' @ zpad 2 ss else [])
                @ (if us \<noteq> 0 then ''.'' @ zpad 6 us else [])))"

definition dt_isoformat :: "datetime \<Rightarrow> string" where
  "dt_isoformat dt =
     date_isoformat (dt_date dt) @ ''T'' @ time_isoformat (dt_time dt)
       @ format_offset (tzinfo dt)"

text \<open>The digits of \<open>n\<close> in a field of exactly \<open>w\<close> characters.\<close>

fun fixed_digits :: "nat \<Rightarrow> nat \<Rightarrow> string" where
  "fixed_digits 0 n = []"
| "fixed_digits (Suc w) n = fixed_digits w (n div 10) @ [digit_char (n mod 10)]"

section \<open>The splitting generator\<close>

type_synonym interval = "datetime \<times> datetime"

text \<open>
  A generator is modelled by the list of the pairs it yields and the exception, if
  any, that ends it.
\<close>

type_synonym 'a generator = "'a list \<times> error option"

definition OrderError :: "datetime \<Rightarrow> datetime \<Rightarrow> error" where
  "OrderError start end =
     ValueError (''Segment end is before start: '' @ dt_isoformat start @ '' -> ''
                   @ dt_isoformat end)"

text \<open>The \<^verbatim>\<open>while\<close> loop of \<^verbatim>\<open>split_segment_by_day\<close> with the final \<^verbatim>\<open>yield\<close>.\<close>

function split_loop :: "datetime \<Rightarrow> datetime \<Rightarrow> interval generator" where
  "split_loop current end =
     (if date_lt (dt_date current) (dt_date end) then
        (case date_add_day (dt_date current) of
           Inl e \<Rightarrow> ([], Some e)
         | Inr d \<Rightarrow>
             (let next_midnight = combine d time_min (tzinfo current);
                  rest = split_loop next_midnight end
              in ((current, next_midnight) # fst rest, snd rest)))
      else ([(current, end)], None))"
  by pat_completeness auto

text \<open>
  The loop ends: while the cursor's date is before the end's, a step moves the cursor
  to a later day, month or year, and the days and months of a step are bounded.
\<close>

definition date_dist :: "date \<Rightarrow> date \<Rightarrow> nat" where
  "date_dist c e = (year e - year c) * 416 + (13 - month c) * 32 + (32 - day c)"

termination split_loop
proof (relation "measure (\<lambda>(c, e). if date_lt (dt_date c) (dt_date e)
                     then Suc (date_dist (dt_date c) (dt_date e)) else 0)", goal_cases)
  case 1
  show ?case by simp
next
  case (2 cur en d nm)
  have le: "days_in_month (year (dt_date cur)) (month (dt_date cur)) \<le> 31"
    by (simp add: days_in_month_def)
  have "date_dist d (dt_date en) < date_dist (dt_date cur) (dt_date en)"
    if "date_lt d (dt_date en)"
    using that 2(2) le
    by (auto simp: date_add_day_def date_dist_def date_lt_def Let_def split: if_splits)
  then show ?case
    using 2 by (auto simp: combine_def)
qed

declare split_loop.simps [simp del]

text \<open>\<^verbatim>\<open>split_segment_by_day(start, end)\<close>.\<close>

definition split_segment_by_day :: "datetime \<Rightarrow> datetime \<Rightarrow> interval generator" where
  "split_segment_by_day start end =
     (case dt_lt end start of
        Inl e \<Rightarrow> ([], Some e)
      | Inr True \<Rightarrow> ([], Some (OrderError start end))
      | Inr False \<Rightarrow>
          if dt_eq end start then ([(start, end)], None)
          else split_loop start end)"

section \<open>JSON values and the segment summarizer\<close>

text \<open>
  What \<^verbatim>\<open>json.loads\<close> returns: \<^verbatim>\<open>None\<close>, booleans, integers, floats, strings,
  lists, and dicts with string keys. A dict is the list of its items in insertion
  order; a lookup takes the first item with the key. A float is the real number it
  denotes (the program only passes the floats of its input on), a string is the list
  of its bytes.
\<close>

datatype json =
    JNull
  | JBool bool
  | JInt int
  | JFloat real
  | JStr string
  | JList "json list"
  | JDict "(string \<times> json) list"

type_synonym pydict = "(string \<times> json) list"

definition ebind :: "error + 'a \<Rightarrow> ('a \<Rightarrow> error + 'b) \<Rightarrow> error + 'b" where
  "ebind r f = (case r of Inl e \<Rightarrow> Inl e | Inr x \<Rightarrow> f x)"

text \<open>\<^verbatim>\<open>key in d\<close> and \<^verbatim>\<open>d.get(key, default)\<close> for a dict \<open>d\<close>.\<close>

definition has_key :: "pydict \<Rightarrow> string \<Rightarrow> bool" where
  "has_key d k = (map_of d k \<noteq> None)"

definition dict_get :: "pydict \<Rightarrow> string \<Rightarrow> json \<Rightarrow> json" where
  "dict_get d k dflt = (case map_of d k of None \<Rightarrow> dflt | Some v \<Rightarrow> v)"

text \<open>
  \<^verbatim>\<open>x.get(key, default)\<close> for any JSON value \<open>x\<close>: only a dict has the method.
\<close>

definition py_get :: "json \<Rightarrow> string \<Rightarrow> json \<Rightarrow> error + json" where
  "py_get x k dflt =
     (case x of JDict d \<Rightarrow> Inr (dict_get d k dflt) | _ \<Rightarrow> Inl AttributeError)"

text \<open>\<^verbatim>\<open>x[key]\<close> with a string key: \<^verbatim>\<open>KeyError\<close> on a dict without it.\<close>

definition py_getitem :: "json \<Rightarrow> string \<Rightarrow> error + json" where
  "py_getitem x k =
     (case x of
        JDict d \<Rightarrow> (case map_of d k of None \<Rightarrow> Inl (KeyError k) | Some v \<Rightarrow> Inr v)
      | _ \<Rightarrow> Inl TypeError)"

text \<open>\<^verbatim>\<open>len(x)\<close>, the truth value of \<open>x\<close>, and \<^verbatim>\<open>x[0]\<close>, \<^verbatim>\<open>x[-1]\<close>.\<close>

definition py_len :: "json \<Rightarrow> error + int" where
  "py_len x =
     (case x of
        JList xs \<Rightarrow> Inr (int (length xs))
      | JStr s \<Rightarrow> Inr (int (length s))
      | JDict d \<Rightarrow> Inr (int (length d))
      | _ \<Rightarrow> Inl TypeError)"

definition truthy :: "json \<Rightarrow> bool" where
  "truthy x =
     (case x of
        JNull \<Rightarrow> False
      | JBool b \<Rightarrow> b
      | JInt i \<Rightarrow> i \<noteq> 0
      | JFloat r \<Rightarrow> r \<noteq> 0
      | JStr s \<Rightarrow> s \<noteq> []
      | JList xs \<Rightarrow> xs \<noteq> []
      | JDict d \<Rightarrow> d \<noteq> [])"

definition py_first :: "json \<Rightarrow> error + json" where
  "py_first x =
     (case x of
        JList xs \<Rightarrow> (case xs of [] \<Rightarrow> Inl IndexError | y # _ \<Rightarrow> Inr y)
      | JStr s \<Rightarrow> (case s of [] \<Rightarrow> Inl IndexError | c # _ \<Rightarrow> Inr (JStr [c]))
      | JDict d \<Rightarrow> Inl (KeyError ''0'')
      | _ \<Rightarrow> Inl TypeError)"

definition py_last :: "json \<Rightarrow> error + json" where
  "py_last x =
     (case x of
        JList xs \<Rightarrow> (if xs = [] then Inl IndexError else Inr (last xs))
      | JStr s \<Rightarrow> (if s = [] then Inl IndexError else Inr (JStr [last s]))
      | JDict d \<Rightarrow> Inl (KeyError ''-1'')
      | _ \<Rightarrow> Inl TypeError)"

text \<open>\<^verbatim>\<open>build_segment_details(segment, include_timeline_points)\<close>.\<close>

definition build_segment_details :: "pydict \<Rightarrow> bool \<Rightarrow> error + pydict" where
  "build_segment_details segment include_timeline_points =
     (if has_key segment ''activity'' then
        (let activity = dict_get segment ''activity'' (JDict []) in
         ebind (py_get activity ''topCandidate'' (JDict [])) (\<lambda>top.
         ebind (py_get top ''type'' JNull) (\<lambda>activityType.
         ebind (py_get top ''probability'' JNull) (\<lambda>activityProbability.
         ebind (py_get activity ''probability'' JNull) (\<lambda>segmentProbability.
         ebind (py_get activity ''distanceMeters'' JNull) (\<lambda>distanceMeters.
         ebind (ebind (py_get activity ''start'' (JDict [])) (\<lambda>s. py_get s ''latLng'' JNull))
           (\<lambda>startPoint.
         ebind (ebind (py_get activity ''end'' (JDict [])) (\<lambda>e. py_get e ''latLng'' JNull))
           (\<lambda>endPoint.
         Inr [(''segmentType'', JStr ''activity''),
              (''activityType'', activityType),
              (''activityProbability'', activityProbability),
              (''segmentProbability'', segmentProbability),
              (''distanceMeters'', distanceMeters),
              (''startPoint'', startPoint),
              (''endPoint'', endPoint)]))))))))
      else if has_key segment ''visit'' then
        (let visit = dict_get segment ''visit'' (JDict []) in
         ebind (py_get visit ''topCandidate'' (JDict [])) (\<lambda>top.
         ebind (py_get visit ''probability'' JNull) (\<lambda>visitProbability.
         ebind (py_get top ''placeId'' JNull) (\<lambda>placeId.
         ebind (py_get top ''semanticType'' JNull) (\<lambda>semanticType.
         ebind (ebind (py_get top ''placeLocation'' (JDict [])) (\<lambda>l. py_get l ''latLng'' JNull))
           (\<lambda>placeLocation.
         Inr [(''segmentType'', JStr ''visit''),
              (''visitProbability'', visitProbability),
              (''placeId'', placeId),
              (''semanticType'', semanticType),
              (''placeLocation'', placeLocation)]))))))
      else
        (let path = dict_get segment ''timelinePath'' (JList []) in
         ebind (py_len path) (\<lambda>n.
         let details = [(''segmentType'', JStr ''timelinePath''), (''pointCount'', JInt n)] in
         ebind
           (if truthy path then
              ebind (ebind (py_first path) (\<lambda>p. py_get p ''point'' JNull)) (\<lambda>firstPoint.
              ebind (ebind (py_last path) (\<lambda>p. py_get p ''point'' JNull)) (\<lambda>lastPoint.
              Inr (details @ [(''firstPoint'', firstPoint), (''lastPoint'', lastPoint)])))
            else Inr details)
           (\<lambda>details.
         Inr (if include_timeline_points then details @ [(''timelinePath'', path)]
              else details)))))"

section \<open>Aggregation by day\<close>

text \<open>
  The dict that \<^verbatim>\<open>parse_by_day\<close> appends for every slice. The six bookkeeping keys
  and the keys of \<open>details\<close> never coincide, so the \<^verbatim>\<open>**details\<close> at the end of the
  dict display overrides none of them, and the slice is a record.
\<close>

record slice =
  segmentIndex :: nat
  startTime :: string
  endTime :: string
  durationMinutes :: real
  originalStartTime :: json
  originalEndTime :: json
  details :: pydict

type_synonym days = "(string \<times> slice list) list"

text \<open>
  \<^verbatim>\<open>parse_iso8601(value)\<close>. \<^verbatim>\<open>datetime.fromisoformat\<close> is a parameter of the
  development: the text it accepts depends on the Python version.
\<close>

definition endswith_Z :: "string \<Rightarrow> bool" where
  "endswith_Z s = (s \<noteq> [] \<and> last s = CHR ''Z'')"

definition parse_iso8601 ::
  "(string \<Rightarrow> error + datetime) \<Rightarrow> json \<Rightarrow> error + datetime" where
  "parse_iso8601 fromisoformat v =
     (case v of
        JStr s \<Rightarrow> fromisoformat (if endswith_Z s then butlast s @ ''+00:00'' else s)
      | _ \<Rightarrow> Inl AttributeError)"

text \<open>
  \<^verbatim>\<open>round(td.total_seconds() / 60.0, 2)\<close> for a \<^verbatim>\<open>timedelta\<close> of \<open>us\<close> microseconds.
  The float rounding to two decimals is the parameter \<open>round2\<close>, applied to the
  exact quotient.
\<close>

definition total_seconds :: "int \<Rightarrow> real" where
  "total_seconds us = real_of_int us / 1000000"

definition duration_minutes :: "(real \<Rightarrow> real) \<Rightarrow> int \<Rightarrow> real" where
  "duration_minutes round2 us = round2 (total_seconds us / 60)"

text \<open>\<^verbatim>\<open>days[day_key].append(item)\<close> on the \<^verbatim>\<open>defaultdict(list)\<close>.\<close>

definition days_append :: "days \<Rightarrow> string \<Rightarrow> slice \<Rightarrow> days" where
  "days_append ds k s =
     (if k \<in> set (map fst ds)
      then map (\<lambda>(k', b). if k' = k then (k', b @ [s]) else (k', b)) ds
      else ds @ [(k, [s])])"

text \<open>The body of the inner \<^verbatim>\<open>for\<close> loop, for one yielded pair.\<close>

definition make_slice ::
  "(real \<Rightarrow> real) \<Rightarrow> nat \<Rightarrow> json \<Rightarrow> json \<Rightarrow> pydict \<Rightarrow> interval \<Rightarrow> error + string \<times> slice" where
  "make_slice round2 index st et dets iv =
     (case iv of (slice_start, slice_end) \<Rightarrow>
        ebind (dt_sub slice_end slice_start) (\<lambda>td.
        Inr (date_isoformat (dt_date slice_start),
             \<lparr>segmentIndex = index,
              startTime = dt_isoformat slice_start,
              endTime = dt_isoformat slice_end,
              durationMinutes = duration_minutes round2 td,
              originalStartTime = st,
              originalEndTime = et,
              details = dets\<rparr>)))"

fun add_slices ::
  "(real \<Rightarrow> real) \<Rightarrow> nat \<Rightarrow> json \<Rightarrow> json \<Rightarrow> pydict \<Rightarrow> days \<Rightarrow> interval list \<Rightarrow> error + days" where
  "add_slices round2 index st et dets ds [] = Inr ds"
| "add_slices round2 index st et dets ds (iv # ivs) =
     ebind (make_slice round2 index st et dets iv) (\<lambda>(k, s).
     add_slices round2 index st et dets (days_append ds k s) ivs)"

text \<open>The body of the outer \<^verbatim>\<open>for\<close> loop, for one enumerated segment.\<close>

definition process_segment ::
  "(string \<Rightarrow> error + datetime) \<Rightarrow> (real \<Rightarrow> real) \<Rightarrow> bool \<Rightarrow> days \<Rightarrow> nat \<times> json
     \<Rightarrow> error + days" where
  "process_segment fromisoformat round2 include_timeline_points ds p =
     (case p of (index, segment) \<Rightarrow>
        ebind (py_getitem segment ''startTime'') (\<lambda>st.
        ebind (parse_iso8601 fromisoformat st) (\<lambda>start.
        ebind (py_getitem segment ''endTime'') (\<lambda>et.
        ebind (parse_iso8601 fromisoformat et) (\<lambda>end.
        ebind (case segment of
                 JDict d \<Rightarrow> build_segment_details d include_timeline_points
               | _ \<Rightarrow> Inl TypeError) (\<lambda>dets.
        (case split_segment_by_day start end of (ivs, err) \<Rightarrow>
           ebind (add_slices round2 index st et dets ds ivs) (\<lambda>ds'.
           (case err of None \<Rightarrow> Inr ds' | Some e \<Rightarrow> Inl e)))))))))"

fun process_segments ::
  "(string \<Rightarrow> error + datetime) \<Rightarrow> (real \<Rightarrow> real) \<Rightarrow> bool \<Rightarrow> days \<Rightarrow> (nat \<times> json) list
     \<Rightarrow> error + days" where
  "process_segments fromisoformat round2 incl ds [] = Inr ds"
| "process_segments fromisoformat round2 incl ds (p # ps) =
     ebind (process_segment fromisoformat round2 incl ds p) (\<lambda>ds'.
     process_segments fromisoformat round2 incl ds' ps)"

text \<open>
  The end of \<^verbatim>\<open>parse_by_day\<close>: every bucket sorted in place (a stable sort) by the
  \<^verbatim>\<open>startTime\<close> text, then the buckets in the sorted order of the day keys.
\<close>

definition sort_buckets :: "days \<Rightarrow> days" where
  "sort_buckets ds = map (\<lambda>(k, b). (k, sort_key startTime b)) ds"

definition days_lookup :: "days \<Rightarrow> string \<Rightarrow> slice list" where
  "days_lookup ds k = (case map_of ds k of None \<Rightarrow> [] | Some b \<Rightarrow> b)"

definition by_sorted_day :: "days \<Rightarrow> days" where
  "by_sorted_day ds = map (\<lambda>k. (k, days_lookup ds k)) (sort (map fst ds))"

text \<open>
  The run over an explicit enumeration, and \<^verbatim>\<open>parse_by_day\<close>, which enumerates the
  segments from 0.
\<close>

definition parse_enumerated ::
  "(string \<Rightarrow> error + datetime) \<Rightarrow> (real \<Rightarrow> real) \<Rightarrow> (nat \<times> json) list \<Rightarrow> bool
     \<Rightarrow> error + days" where
  "parse_enumerated fromisoformat round2 ps include_timeline_points =
     ebind (process_segments fromisoformat round2 include_timeline_points [] ps) (\<lambda>ds.
     Inr (by_sorted_day (sort_buckets ds)))"

definition parse_by_day ::
  "(string \<Rightarrow> error + datetime) \<Rightarrow> (real \<Rightarrow> real) \<Rightarrow> json list \<Rightarrow> bool \<Rightarrow> error + days" where
  "parse_by_day fromisoformat round2 segments include_timeline_points =
     parse_enumerated fromisoformat round2 (enumerate 0 segments) include_timeline_points"

section \<open>The output document\<close>

record document =
  sourceFile :: string
  dayCount :: nat
  segmentCount :: nat
  days_of :: days

text \<open>
  \<^verbatim>\<open>main\<close> from the parsed input document to the output document; reading and
  writing the files is left out.
\<close>

definition main ::
  "(string \<Rightarrow> error + datetime) \<Rightarrow> (real \<Rightarrow> real) \<Rightarrow> string \<Rightarrow> bool \<Rightarrow> json \<Rightarrow> error + document" where
  "main fromisoformat round2 input_path include_timeline_points data =
     ebind (py_get data ''semanticSegments'' (JList [])) (\<lambda>segs.
     (case segs of
        JList segments \<Rightarrow>
          ebind (parse_by_day fromisoformat round2 segments include_timeline_points)
            (\<lambda>grouped.
          Inr \<lparr>sourceFile = input_path,
               dayCount = length grouped,
               segmentCount = length segments,
               days_of = grouped\<rparr>)
      | _ \<Rightarrow> Inl (ValueError ''Invalid file format: 'semanticSegments' must be a list.'')))"

text \<open>
  \<^verbatim>\<open>datetime.fromisoformat\<close> returns only datetimes that Python can build: the
  fields are in range.
\<close>

definition valid_parser :: "(string \<Rightarrow> error + datetime) \<Rightarrow> bool" where
  "valid_parser fromisoformat = (\<forall>s dt. fromisoformat s = Inr dt \<longrightarrow> valid_datetime dt)"

section \<open>The summary as specified\<close>

text \<open>
  The shape the summarizer relies on: each nested structure it descends into is, when
  present, a dict, and \<^verbatim>\<open>timelinePath\<close> is a list whose first and last points are
  dicts.
\<close>

definition is_dict :: "json \<Rightarrow> bool" where
  "is_dict x = (case x of JDict d \<Rightarrow> True | _ \<Rightarrow> False)"

definition opt_dict :: "pydict \<Rightarrow> string \<Rightarrow> bool" where
  "opt_dict d k = is_dict (dict_get d k (JDict []))"

definition well_shaped :: "pydict \<Rightarrow> bool" where
  "well_shaped segment =
     (if has_key segment ''activity'' then
        (case dict_get segment ''activity'' (JDict []) of
           JDict a \<Rightarrow> opt_dict a ''topCandidate'' \<and> opt_dict a ''start'' \<and> opt_dict a ''end''
         | _ \<Rightarrow> False)
      else if has_key segment ''visit'' then
        (case dict_get segment ''visit'' (JDict []) of
           JDict v \<Rightarrow>
             (case dict_get v ''topCandidate'' (JDict []) of
                JDict t \<Rightarrow> opt_dict t ''placeLocation''
              | _ \<Rightarrow> False)
         | _ \<Rightarrow> False)
      else
        (case dict_get segment ''timelinePath'' (JList []) of
           JList ps \<Rightarrow> ps = [] \<or> (is_dict (hd ps) \<and> is_dict (last ps))
         | _ \<Rightarrow> False))"

text \<open>
  The summary in the words of the specification: every field is read through a chain
  of optional lookups and is null when a step of the chain is missing.
\<close>

fun lookup_path :: "json \<Rightarrow> string list \<Rightarrow> json" where
  "lookup_path v [] = v"
| "lookup_path v (k # ks) =
     (case v of
        JDict d \<Rightarrow> (case map_of d k of None \<Rightarrow> JNull | Some w \<Rightarrow> lookup_path w ks)
      | _ \<Rightarrow> JNull)"

definition summary_spec :: "pydict \<Rightarrow> bool \<Rightarrow> pydict" where
  "summary_spec segment include_timeline_points =
     (let s = JDict segment in
      if has_key segment ''activity'' then
        [(''segmentType'', JStr ''activity''),
         (''activityType'', lookup_path s [''activity'', ''topCandidate'', ''type'']),
         (''activityProbability'', lookup_path s [''activity'', ''topCandidate'', ''probability'']),
         (''segmentProbability'', lookup_path s [''activity'', ''probability'']),
         (''distanceMeters'', lookup_path s [''activity'', ''distanceMeters'']),
         (''startPoint'', lookup_path s [''activity'', ''start'', ''latLng'']),
         (''endPoint'', lookup_path s [''activity'', ''end'', ''latLng''])]
      else if has_key segment ''visit'' then
        [(''segmentType'', JStr ''visit''),
         (''visitProbability'', lookup_path s [''visit'', ''probability'']),
         (''placeId'', lookup_path s [''visit'', ''topCandidate'', ''placeId'']),
         (''semanticType'', lookup_path s [''visit'', ''topCandidate'', ''semanticType'']),
         (''placeLocation'',
            lookup_path s [''visit'', ''topCandidate'', ''placeLocation'', ''latLng''])]
      else
        (case dict_get segment ''timelinePath'' (JList []) of
           JList ps \<Rightarrow>
             [(''segmentType'', JStr ''timelinePath''), (''pointCount'', JInt (int (length ps)))]
             @ (if ps = [] then []
                else [(''firstPoint'', lookup_path (hd ps) [''point'']),
                      (''lastPoint'', lookup_path (last ps) [''point''])])
             @ (if include_timeline_points then [(''timelinePath'', JList ps)] else [])
         | _ \<Rightarrow> []))"

section \<open>Properties of yielded intervals\<close>

text \<open>Each pair ends where the next one starts.\<close>

fun contiguous :: "interval list \<Rightarrow> bool" where
  "contiguous [] = True"
| "contiguous [iv] = True"
| "contiguous (iv # iv' # ivs) = (snd iv = fst iv' \<and> contiguous (iv' # ivs))"

text \<open>The pair does not end before it starts.\<close>

definition forward :: "interval \<Rightarrow> bool" where
  "forward iv = (utc_us (fst iv) \<le> utc_us (snd iv))"

text \<open>
  The pair runs from the cursor to the midnight that begins the day after the
  cursor's date, built with the cursor's \<open>tzinfo\<close>.
\<close>

definition day_step :: "interval \<Rightarrow> bool" where
  "day_step iv =
     (case date_add_day (dt_date (fst iv)) of
        Inl e \<Rightarrow> False
      | Inr d \<Rightarrow> snd iv = combine d time_min (tzinfo (fst iv)))"

text \<open>
  The pair lies within one calendar day of its start's offset: both ends carry the
  same \<open>tzinfo\<close>, and the end is on the start's date or is the midnight that closes it.
\<close>

definition within_day :: "interval \<Rightarrow> bool" where
  "within_day iv =
     (tzinfo (snd iv) = tzinfo (fst iv) \<and>
      (dt_date (snd iv) = dt_date (fst iv) \<or>
       (date_add_day (dt_date (fst iv)) = Inr (dt_date (snd iv)) \<and>
        dt_time (snd iv) = time_min)))"

section \<open>The slices of a run, as one list\<close>

text \<open>
  For the proofs, the work of the two loops is split in two: the pairs (day key,
  slice) in the order the loops produce them, and their insertion into the buckets.
  \<open>slices_of_segment\<close> is the body of the outer loop without the insertion,
  \<open>collect_slices\<close> the outer loop, \<open>add_all\<close> the insertions, and \<open>grouped\<close> the result
  of \<^verbatim>\<open>parse_by_day\<close> in terms of the collected list.
\<close>

fun make_slices ::
  "(real \<Rightarrow> real) \<Rightarrow> nat \<Rightarrow> json \<Rightarrow> json \<Rightarrow> pydict \<Rightarrow> interval list
     \<Rightarrow> error + (string \<times> slice) list" where
  "make_slices round2 index st et dets [] = Inr []"
| "make_slices round2 index st et dets (iv # ivs) =
     ebind (make_slice round2 index st et dets iv) (\<lambda>ks.
     ebind (make_slices round2 index st et dets ivs) (\<lambda>kss. Inr (ks # kss)))"

definition slices_of_segment ::
  "(string \<Rightarrow> error + datetime) \<Rightarrow> (real \<Rightarrow> real) \<Rightarrow> bool \<Rightarrow> nat \<times> json
     \<Rightarrow> error + (string \<times> slice) list" where
  "slices_of_segment fromisoformat round2 include_timeline_points p =
     (case p of (index, segment) \<Rightarrow>
        ebind (py_getitem segment ''startTime'') (\<lambda>st.
        ebind (parse_iso8601 fromisoformat st) (\<lambda>start.
        ebind (py_getitem segment ''endTime'') (\<lambda>et.
        ebind (parse_iso8601 fromisoformat et) (\<lambda>end.
        ebind (case segment of
                 JDict d \<Rightarrow> build_segment_details d include_timeline_points
               | _ \<Rightarrow> Inl TypeError) (\<lambda>dets.
        (case split_segment_by_day start end of (ivs, err) \<Rightarrow>
           ebind (make_slices round2 index st et dets ivs) (\<lambda>kss.
           (case err of None \<Rightarrow> Inr kss | Some e \<Rightarrow> Inl e)))))))))"

fun collect_slices ::
  "(string \<Rightarrow> error + datetime) \<Rightarrow> (real \<Rightarrow> real) \<Rightarrow> bool \<Rightarrow> (nat \<times> json) list
     \<Rightarrow> error + (string \<times> slice) list" where
  "collect_slices fromisoformat round2 incl [] = Inr []"
| "collect_slices fromisoformat round2 incl (p # ps) =
     ebind (slices_of_segment fromisoformat round2 incl p) (\<lambda>a.
     ebind (collect_slices fromisoformat round2 incl ps) (\<lambda>b. Inr (a @ b)))"

definition add_all :: "days \<Rightarrow> (string \<times> slice) list \<Rightarrow> days" where
  "add_all ds kss = foldl (\<lambda>ds ks. days_append ds (fst ks) (snd ks)) ds kss"

definition bucket :: "string \<Rightarrow> (string \<times> slice) list \<Rightarrow> slice list" where
  "bucket k kss = map snd (filter (\<lambda>ks. fst ks = k) kss)"

definition grouped :: "(string \<times> slice) list \<Rightarrow> days" where
  "grouped kss =
     map (\<lambda>k. (k, sort_key startTime (bucket k kss))) (sort (remdups (map fst kss)))"

text \<open>The pair (day key, slice) was made for a pair that starts at the instant \<open>a\<close>.\<close>

definition slice_of_start :: "string \<times> slice \<Rightarrow> datetime \<Rightarrow> bool" where
  "slice_of_start ks a =
     (fst ks = date_isoformat (dt_date a) \<and> startTime (snd ks) = dt_isoformat a)"

text \<open>The exact length of a pair in minutes.\<close>

definition exact_minutes :: "interval \<Rightarrow> real" where
  "exact_minutes iv = total_seconds (utc_us (snd iv) - utc_us (fst iv)) / 60"

text \<open>The slices of the result that come from the segment at index \<open>i\<close>.\<close>

definition slices_from :: "nat \<Rightarrow> days \<Rightarrow> slice list" where
  "slices_from i out = filter (\<lambda>s. segmentIndex s = i) (concat (map snd out))"

section \<open>Concrete inputs\<close>

text \<open>\<^verbatim>\<open>datetime(y, mo, d, h, mi, s, us, tzinfo=tz)\<close>.\<close>

definition mk_datetime ::
  "nat \<Rightarrow> nat \<Rightarrow> nat \<Rightarrow> nat \<Rightarrow> nat \<Rightarrow> nat \<Rightarrow> nat \<Rightarrow> int option \<Rightarrow> datetime" where
  "mk_datetime y mo d h mi s us tz =
     \<lparr>dt_date = \<lparr>year = y, month = mo, day = d\<rparr>,
      dt_time = \<lparr>hour = h, minute = mi, second = s, microsecond = us\<rparr>,
      tzinfo = tz\<rparr>"

text \<open>
  The values of \<^verbatim>\<open>datetime.fromisoformat\<close> on the timestamps of the examples below
  (every other text is rejected), and a rounding to two decimals.
\<close>

definition jan1_1000 :: datetime where
  "jan1_1000 = mk_datetime 2024 1 1 10 0 0 0 (Some 0)"

definition jan1_1100 :: datetime where
  "jan1_1100 = mk_datetime 2024 1 1 11 0 0 0 (Some 0)"

definition jan1_2330 :: datetime where
  "jan1_2330 = mk_datetime 2024 1 1 23 30 0 0 (Some 0)"

definition jan2_0000 :: datetime where
  "jan2_0000 = mk_datetime 2024 1 2 0 0 0 0 (Some 0)"

definition jan2_0030 :: datetime where
  "jan2_0030 = mk_datetime 2024 1 2 0 30 0 0 (Some 0)"

definition sample_fromisoformat :: "string \<Rightarrow> error + datetime" where
  "sample_fromisoformat s =
     (if s = ''2024-01-01T10:00:00+00:00'' then Inr jan1_1000
      else if s = ''2024-01-01T11:00:00+00:00'' then Inr jan1_1100
      else if s = ''2024-01-01T23:30:00+00:00'' then Inr jan1_2330
      else if s = ''2024-01-02T00:30:00+00:00'' then Inr jan2_0030
      else Inl (ValueError ''Invalid isoformat string''))"

definition sample_round2 :: "real \<Rightarrow> real" where
  "sample_round2 x = real_of_int (round (x * 100)) / 100"

text \<open>A segment with the two timestamps and further items.\<close>

definition segment_of :: "string \<Rightarrow> string \<Rightarrow> pydict \<Rightarrow> json" where
  "segment_of a b rest = JDict ([(''startTime'', JStr a), (''endTime'', JStr b)] @ rest)"

text \<open>
  A run on two segments: an activity across a midnight and a visit within a day, with
  the pairs (day key, slice) it collects and the result.
\<close>

definition sample_activity :: json where
  "sample_activity =
     segment_of ''2024-01-01T23:30:00Z'' ''2024-01-02T00:30:00Z''
       [(''activity'', JDict [(''distanceMeters'', JInt 1200)])]"

definition sample_visit :: json where
  "sample_visit =
     segment_of ''2024-01-01T10:00:00Z'' ''2024-01-01T11:00:00Z'' [(''visit'', JDict [])]"

definition activity_details :: pydict where
  "activity_details =
     [(''segmentType'', JStr ''activity''), (''activityType'', JNull),
      (''activityProbability'', JNull), (''segmentProbability'', JNull),
      (''distanceMeters'', JInt 1200), (''startPoint'', JNull), (''endPoint'', JNull)]"

definition visit_details :: pydict where
  "visit_details =
     [(''segmentType'', JStr ''visit''), (''visitProbability'', JNull), (''placeId'', JNull),
      (''semanticType'', JNull), (''placeLocation'', JNull)]"

definition mk_slice ::
  "nat \<Rightarrow> string \<Rightarrow> string \<Rightarrow> real \<Rightarrow> string \<Rightarrow> string \<Rightarrow> pydict \<Rightarrow> slice" where
  "mk_slice i a b m st et dets =
     \<lparr>segmentIndex = i, startTime = a, endTime = b, durationMinutes = m,
      originalStartTime = JStr st, originalEndTime = JStr et, details = dets\<rparr>"

definition sample_slices :: "(string \<times> slice) list" where
  "sample_slices =
     [(''2024-01-01'',
       mk_slice 0 ''2024-01-01T23:30:00+00:00'' ''2024-01-02T00:00:00+00:00'' 30
         ''2024-01-01T23:30:00Z'' ''2024-01-02T00:30:00Z'' activity_details),
      (''2024-01-02'',
       mk_slice 0 ''2024-01-02T00:00:00+00:00'' ''2024-01-02T00:30:00+00:00'' 30
         ''2024-01-01T23:30:00Z'' ''2024-01-02T00:30:00Z'' activity_details),
      (''2024-01-01'',
       mk_slice 1 ''2024-01-01T10:00:00+00:00'' ''2024-01-01T11:00:00+00:00'' 60
         ''2024-01-01T10:00:00Z'' ''2024-01-01T11:00:00Z'' visit_details)]"

definition sample_output :: days where
  "sample_output =
     [(''2024-01-01'',
       [mk_slice 1 ''2024-01-01T10:00:00+00:00'' ''2024-01-01T11:00:00+00:00'' 60
          ''2024-01-01T10:00:00Z'' ''2024-01-01T11:00:00Z'' visit_details,
        mk_slice 0 ''2024-01-01T23:30:00+00:00'' ''2024-01-02T00:00:00+00:00'' 30
          ''2024-01-01T23:30:00Z'' ''2024-01-02T00:30:00Z'' activity_details]),
      (''2024-01-02'',
       [mk_slice 0 ''2024-01-02T00:00:00+00:00'' ''2024-01-02T00:30:00+00:00'' 30
          ''2024-01-01T23:30:00Z'' ''2024-01-02T00:30:00Z'' activity_details])]"

definition visit_slice :: "nat \<Rightarrow> slice" where
  "visit_slice i =
     mk_slice i ''2024-01-01T10:00:00+00:00'' ''2024-01-01T11:00:00+00:00'' 60
       ''2024-01-01T10:00:00Z'' ''2024-01-01T11:00:00Z'' visit_details"

text \<open>Segments for the three variants of the summary.\<close>

definition both_segment :: pydict where
  "both_segment =
     [(''visit'', JDict [(''probability'', JInt 1)]),
      (''activity'',
         JDict [(''topCandidate'', JDict [(''type'', JStr ''WALKING'')]),
                (''distanceMeters'', JInt 1200)])]"

definition visit_segment :: pydict where
  "visit_segment =
     [(''timelinePath'', JList []),
      (''visit'',
         JDict [(''topCandidate'',
                   JDict [(''placeId'', JStr ''P1''), (''semanticType'', JStr ''HOME'')])])]"

definition path_segment :: pydict where
  "path_segment =
     [(''timelinePath'',
         JList [JDict [(''point'', JStr ''a'')], JDict [(''point'', JStr ''b'')]])]"

section \<open>Evaluation at concrete inputs\<close>

lemmas datetime_eval =
  jan1_1000_def jan1_1100_def jan1_2330_def jan2_0000_def jan2_0030_def
  mk_datetime_def dt_lt_def dt_eq_def dt_ge_def dt_sub_def utc_us_def local_us_def time_us_def
  toordinal_def days_before_year_def days_before_month_def days_in_month_def is_leap_def
  date_lt_def date_add_day_def MAXYEAR_def combine_def time_min_def Let_def upt_rec
  valid_datetime_def valid_date_def valid_time_def valid_tzinfo_def

lemmas summarizer_eval =
  both_segment_def visit_segment_def path_segment_def
  well_shaped_def has_key_def dict_get_def opt_dict_def is_dict_def

lemmas isoformat_eval =
  dt_isoformat_def date_isoformat_def time_isoformat_def format_offset_def zpad_def
  dec.simps digit_char_def Let_def

section \<open>The calendar\<close>

lemma div_pred:
  "1 \<le> (y::nat) \<Longrightarrow> y div k = (y - 1) div k + (if y mod k = 0 then 1 else 0)"
  by (cases y) (simp_all add: div_Suc)

lemma days_before_year_Suc:
  assumes "1 \<le> y"
  shows "days_before_year (Suc y) = days_before_year y + days_in_year y"
proof -
  define a where "a = (y - 1) div 4"
  define b where "b = (y - 1) div 100"
  define c where "c = (y - 1) div 400"
  have d4: "y div 4 = a + (if y mod 4 = 0 then 1 else 0)"
    unfolding a_def using assms by (rule div_pred)
  have d100: "y div 100 = b + (if y mod 100 = 0 then 1 else 0)"
    unfolding b_def using assms by (rule div_pred)
  have d400: "y div 400 = c + (if y mod 400 = 0 then 1 else 0)"
    unfolding c_def using assms by (rule div_pred)
  have ba: "b \<le> a" unfolding a_def b_def by (rule div_le_mono2) simp_all
  have m1: "y mod 100 = 0 \<Longrightarrow> y mod 4 = 0" by presburger
  have m2: "y mod 400 = 0 \<Longrightarrow> y mod 100 = 0" by presburger
  have y: "y * 365 = (y - 1) * 365 + 365" using assms by (simp add: algebra_simps)
  have lhs: "days_before_year (Suc y) = y * 365 + y div 4 - y div 100 + y div 400"
    by (simp add: days_before_year_def)
  have rhs: "days_before_year y = (y - 1) * 365 + a - b + c"
    by (simp add: days_before_year_def a_def b_def c_def Let_def)
  show ?thesis
    unfolding lhs rhs d4 d100 d400 y days_in_year_def is_leap_def
    using ba m1 m2 by auto
qed

lemma days_before_month_Suc:
  "1 \<le> m \<Longrightarrow> days_before_month y (Suc m) = days_before_month y m + days_in_month y m"
  by (simp add: days_before_month_def)

lemma days_before_month_1: "days_before_month y (Suc 0) = 0"
  by (simp add: days_before_month_def)

lemma days_before_month_13: "days_before_month y 13 = days_in_year y"
  by (simp add: days_before_month_def days_in_year_def days_in_month_def upt_rec)

lemma days_before_month_mono:
  "1 \<le> m \<Longrightarrow> m < m' \<Longrightarrow> days_before_month y m + days_in_month y m \<le> days_before_month y m'"
proof (induction m')
  case 0
  then show ?case by simp
next
  case (Suc k)
  show ?case
  proof (cases "m = k")
    case True
    with Suc.prems show ?thesis by (simp add: days_before_month_Suc)
  next
    case False
    with Suc.prems have "m < k" by simp
    with Suc have "days_before_month y m + days_in_month y m \<le> days_before_month y k" by simp
    moreover have "days_before_month y k \<le> days_before_month y (Suc k)"
      using Suc.prems \<open>m < k\<close> by (simp add: days_before_month_Suc)
    ultimately show ?thesis by simp
  qed
qed

lemma days_before_year_mono:
  "1 \<le> y \<Longrightarrow> y < y' \<Longrightarrow> days_before_year y + days_in_year y \<le> days_before_year y'"
proof (induction y')
  case 0
  then show ?case by simp
next
  case (Suc k)
  show ?case
  proof (cases "y = k")
    case True
    with Suc.prems show ?thesis by (simp add: days_before_year_Suc)
  next
    case False
    with Suc.prems have "y < k" by simp
    with Suc have "days_before_year y + days_in_year y \<le> days_before_year k" by simp
    moreover have "days_before_year k \<le> days_before_year (Suc k)"
      using Suc.prems \<open>y < k\<close> by (simp add: days_before_year_Suc)
    ultimately show ?thesis by simp
  qed
qed

lemma day_of_year_le:
  assumes "valid_date d"
  shows "days_before_month (year d) (month d) + day d \<le> days_in_year (year d)"
proof -
  have "days_before_month (year d) (month d) + days_in_month (year d) (month d)
          \<le> days_before_month (year d) 13"
    using assms by (intro days_before_month_mono) (auto simp: valid_date_def)
  then show ?thesis
    using assms by (simp add: days_before_month_13 valid_date_def)
qed

lemma toordinal_mono:
  assumes "valid_date a" "valid_date b" "date_lt a b"
  shows "toordinal a < toordinal b"
proof -
  consider (y) "year a < year b"
    | (m) "year a = year b" "month a < month b"
    | (d) "year a = year b" "month a = month b" "day a < day b"
    using assms(3) by (auto simp: date_lt_def)
  then show ?thesis
  proof cases
    case y
    have "days_before_year (year a) + days_in_year (year a) \<le> days_before_year (year b)"
      using y assms(1) by (intro days_before_year_mono) (auto simp: valid_date_def)
    moreover have "1 \<le> day b" using assms(2) by (simp add: valid_date_def)
    ultimately show ?thesis
      using day_of_year_le [OF assms(1)] by (simp add: toordinal_def)
  next
    case m
    have "days_before_month (year a) (month a) + days_in_month (year a) (month a)
            \<le> days_before_month (year a) (month b)"
      using m assms(1) by (intro days_before_month_mono) (auto simp: valid_date_def)
    moreover have "1 \<le> day b" "day a \<le> days_in_month (year a) (month a)"
      using assms(1,2) by (simp_all add: valid_date_def)
    ultimately show ?thesis using m by (simp add: toordinal_def)
  next
    case d
    then show ?thesis by (simp add: toordinal_def)
  qed
qed

lemma date_add_day_fields:
  assumes "valid_date c" "valid_date e" "date_lt c e"
  shows "\<exists>d. date_add_day c = Inr d \<and>
    (if day c < days_in_month (year c) (month c)
     then year d = year c \<and> month d = month c \<and> day d = day c + 1
     else if month c < 12 then year d = year c \<and> month d = month c + 1 \<and> day d = 1
     else year d = year c + 1 \<and> month d = 1 \<and> day d = 1 \<and> year c < year e)"
proof -
  let ?dim = "days_in_month (year c) (month c)"
  have bounds: "year c \<le> 9999" "year e \<le> 9999" "month e \<le> 12" "month c \<le> 12"
    "day c \<le> ?dim" "day e \<le> days_in_month (year e) (month e)"
    using assms(1,2) by (simp_all add: valid_date_def MAXYEAR_def)
  consider (day) "day c < ?dim"
    | (month) "\<not> day c < ?dim" "month c < 12"
    | (year) "\<not> day c < ?dim" "\<not> month c < 12"
    by blast
  then show ?thesis
  proof cases
    case day
    with bounds show ?thesis by (simp add: date_add_day_def MAXYEAR_def)
  next
    case month
    with bounds show ?thesis by (simp add: date_add_day_def MAXYEAR_def)
  next
    case year
    with bounds have m: "month c = 12" and d: "day c = ?dim" by simp_all
    have "year c < year e"
    proof (rule ccontr)
      assume "\<not> year c < year e"
      with assms(3) have "year c = year e" "month c < month e \<or> (month c = month e \<and> day c < day e)"
        by (auto simp: date_lt_def)
      with m d bounds show False by auto
    qed
    with year bounds show ?thesis by (simp add: date_add_day_def MAXYEAR_def)
  qed
qed

lemma date_add_day_valid:
  assumes "valid_date c" "valid_date e" "date_lt c e"
  shows "\<exists>d. date_add_day c = Inr d \<and> valid_date d \<and> toordinal d = toordinal c + 1
            \<and> \<not> date_lt e d"
proof -
  let ?dim = "days_in_month (year c) (month c)"
  from date_add_day_fields [OF assms] obtain d where add: "date_add_day c = Inr d"
    and f: "if day c < ?dim
     then year d = year c \<and> month d = month c \<and> day d = day c + 1
     else if month c < 12 then year d = year c \<and> month d = month c + 1 \<and> day d = 1
     else year d = year c + 1 \<and> month d = 1 \<and> day d = 1 \<and> year c < year e"
    by blast
  have vc: "1 \<le> year c" "year c \<le> 9999" "1 \<le> month c" "month c \<le> 12" "1 \<le> day c"
    "day c \<le> ?dim"
    using assms(1) by (simp_all add: valid_date_def MAXYEAR_def)
  have ve: "year e \<le> 9999" "1 \<le> month e" "1 \<le> day e"
    "day e \<le> days_in_month (year e) (month e)"
    using assms(2) by (simp_all add: valid_date_def MAXYEAR_def)
  consider (day) "day c < ?dim"
    | (month) "\<not> day c < ?dim" "month c < 12"
    | (year) "\<not> day c < ?dim" "\<not> month c < 12"
    by blast
  then have "valid_date d \<and> toordinal d = toordinal c + 1 \<and> \<not> date_lt e d"
  proof cases
    case day
    with f have g: "year d = year c" "month d = month c" "day d = day c + 1" by simp_all
    have "valid_date d" using g vc day by (simp add: valid_date_def MAXYEAR_def)
    moreover have "toordinal d = toordinal c + 1" using g by (simp add: toordinal_def)
    moreover have "\<not> date_lt e d" using g assms(3) unfolding date_lt_def by arith
    ultimately show ?thesis by blast
  next
    case month
    with f have g: "year d = year c" "month d = month c + 1" "day d = 1" by simp_all
    have "1 \<le> days_in_month (year c) (Suc (month c))"
      using month vc by (auto simp: days_in_month_def)
    then have "valid_date d" using g vc month by (simp add: valid_date_def MAXYEAR_def)
    moreover have "toordinal d = toordinal c + 1"
      using g vc month by (simp add: toordinal_def days_before_month_Suc)
    moreover have "\<not> date_lt e d"
    proof
      assume "date_lt e d"
      with g ve have "year e < year c \<or> (year e = year c \<and> month e \<le> month c)"
        unfolding date_lt_def by arith
      with assms(3) have "year e = year c" "month e = month c" "day c < day e"
        unfolding date_lt_def by arith+
      with ve(4) month(1) show False by simp
    qed
    ultimately show ?thesis by blast
  next
    case year
    with f have g: "year d = year c + 1" "month d = 1" "day d = 1" "year c < year e" by simp_all
    from year vc have m: "month c = 12" and dd: "day c = ?dim" by simp_all
    have "valid_date d" using g ve by (simp add: valid_date_def MAXYEAR_def days_in_month_def)
    moreover have "toordinal d = toordinal c + 1"
    proof -
      have "days_before_year (Suc (year c)) = days_before_year (year c) + days_in_year (year c)"
        using vc(1) by (rule days_before_year_Suc)
      moreover have "days_before_month (year c) 12 + days_in_month (year c) 12
           = days_in_year (year c)"
        using days_before_month_Suc [of 12 "year c"] by (simp add: days_before_month_13)
      ultimately show ?thesis
        using g m dd by (simp add: toordinal_def days_before_month_1)
    qed
    moreover have "\<not> date_lt e d" using g ve unfolding date_lt_def by arith
    ultimately show ?thesis by blast
  qed
  with add show ?thesis by blast
qed

section \<open>The splitting generator: errors\<close>

lemma split_loop_error:
  "snd (split_loop c e) = Some x \<Longrightarrow> x = OverflowError"
proof (induction c e rule: split_loop.induct)
  case (1 c e)
  show ?case
  proof (cases "date_lt (dt_date c) (dt_date e)")
    case False
    with "1.prems" show ?thesis by (simp add: split_loop.simps [of c e])
  next
    case True
    show ?thesis
    proof (cases "date_add_day (dt_date c)")
      case (Inl err)
      then have "err = OverflowError"
        by (auto simp: date_add_day_def Let_def split: if_splits)
      with True Inl "1.prems" show ?thesis by (simp add: split_loop.simps [of c e])
    next
      case (Inr d)
      with True "1.prems" "1.IH" [OF True Inr refl] show ?thesis
        by (simp add: split_loop.simps [of c e] Let_def)
    qed
  qed
qed

text \<open>
  Claim C7. \<^verbatim>\<open>split_segment_by_day(start, end)\<close> raises a \<^verbatim>\<open>ValueError\<close> (the
  order error) exactly when \<^verbatim>\<open>end < start\<close> holds, and then it is the order error
  for this pair, raised before any pair is yielded.
\<close>

theorem split_order_error_iff:
  "((\<exists>m. snd (split_segment_by_day start end) = Some (ValueError m))
      = (dt_lt end start = Inr True))
   \<and> (dt_lt end start = Inr True \<longrightarrow>
        split_segment_by_day start end = ([], Some (OrderError start end)))"
proof -
  have loop: "snd (split_loop start end) \<noteq> Some (ValueError m)" for m
    using split_loop_error [of start "end" "ValueError m"] by auto
  show ?thesis
  proof (cases "dt_lt end start")
    case (Inl e)
    then have "e = TypeError" by (auto simp: dt_lt_def split: if_splits)
    with Inl show ?thesis by (simp add: split_segment_by_day_def)
  next
    case (Inr b)
    show ?thesis
    proof (cases b)
      case True
      with Inr show ?thesis by (simp add: split_segment_by_day_def OrderError_def)
    next
      case False
      with Inr show ?thesis by (simp add: split_segment_by_day_def loop)
    qed
  qed
qed

theorem split_order_error_iff_witness:
  "dt_lt (mk_datetime 2024 1 1 10 0 0 0 (Some 0)) (mk_datetime 2024 1 1 12 0 0 0 (Some 0))
     = Inr True
   \<and> split_segment_by_day (mk_datetime 2024 1 1 12 0 0 0 (Some 0))
         (mk_datetime 2024 1 1 10 0 0 0 (Some 0))
       = ([], Some (ValueError
            ''Segment end is before start: 2024-01-01T12:00:00+00:00 -> 2024-01-01T10:00:00+00:00''))"
proof -
  have lt: "dt_lt (mk_datetime 2024 1 1 10 0 0 0 (Some 0))
              (mk_datetime 2024 1 1 12 0 0 0 (Some 0)) = Inr True"
    by (simp add: datetime_eval)
  have msg: "OrderError (mk_datetime 2024 1 1 12 0 0 0 (Some 0))
               (mk_datetime 2024 1 1 10 0 0 0 (Some 0))
     = ValueError
         ''Segment end is before start: 2024-01-01T12:00:00+00:00 -> 2024-01-01T10:00:00+00:00''"
    by (simp add: OrderError_def mk_datetime_def isoformat_eval)
  show ?thesis
    using split_order_error_iff [of "mk_datetime 2024 1 1 12 0 0 0 (Some 0)"
        "mk_datetime 2024 1 1 10 0 0 0 (Some 0)"] lt msg
    by simp
qed

section \<open>The splitting generator: the yielded intervals\<close>

lemma split_loop_unfold_lt:
  assumes "date_lt (dt_date c) (dt_date e)" "date_add_day (dt_date c) = Inr d"
  shows "split_loop c e =
     ((c, combine d time_min (tzinfo c)) # fst (split_loop (combine d time_min (tzinfo c)) e),
      snd (split_loop (combine d time_min (tzinfo c)) e))"
  using assms by (simp add: split_loop.simps [of c e] Let_def)

lemma split_loop_unfold_ge:
  assumes "\<not> date_lt (dt_date c) (dt_date e)"
  shows "split_loop c e = ([(c, e)], None)"
  using assms by (simp add: split_loop.simps [of c e])

lemma split_loop_shape:
  "snd (split_loop c e) = None \<Longrightarrow>
     fst (split_loop c e) \<noteq> [] \<and> fst (hd (fst (split_loop c e))) = c
     \<and> snd (last (fst (split_loop c e))) = e
     \<and> contiguous (fst (split_loop c e))
     \<and> list_all day_step (butlast (fst (split_loop c e)))"
proof (induction c e rule: split_loop.induct)
  case (1 c e)
  show ?case
  proof (cases "date_lt (dt_date c) (dt_date e)")
    case False
    then show ?thesis by (simp add: split_loop_unfold_ge)
  next
    case True
    show ?thesis
    proof (cases "date_add_day (dt_date c)")
      case (Inl err)
      with True "1.prems" show ?thesis by (simp add: split_loop.simps [of c e])
    next
      case (Inr d)
      let ?nm = "combine d time_min (tzinfo c)"
      let ?rest = "split_loop ?nm e"
      have unf: "split_loop c e = ((c, ?nm) # fst ?rest, snd ?rest)"
        using True Inr by (rule split_loop_unfold_lt)
      with "1.prems" have "snd ?rest = None" by simp
      from "1.IH" [OF True Inr refl this]
      have ne: "fst ?rest \<noteq> []" and h: "fst (hd (fst ?rest)) = ?nm"
        and l: "snd (last (fst ?rest)) = e" and c: "contiguous (fst ?rest)"
        and s: "list_all day_step (butlast (fst ?rest))"
        by simp_all
      from ne obtain iv ivs where ivs: "fst ?rest = iv # ivs" by (cases "fst ?rest") auto
      have step: "day_step (c, ?nm)" using Inr by (simp add: day_step_def)
      show ?thesis
        unfolding unf using ne h l c s step ivs by simp
    qed
  qed
qed

lemma time_us_bounds:
  "valid_time t \<Longrightarrow> 0 \<le> time_us t \<and> time_us t < 86400000000"
  by (simp add: valid_time_def time_us_def)

lemma date_trichotomy:
  "\<not> date_lt a b \<Longrightarrow> \<not> date_lt b a \<Longrightarrow> a = (b::date)"
  by (cases a, cases b) (auto simp: date_lt_def)

lemma not_date_lt_of_le:
  assumes "valid_datetime c" "valid_datetime e" "local_us c \<le> local_us e"
  shows "\<not> date_lt (dt_date e) (dt_date c)"
proof
  assume "date_lt (dt_date e) (dt_date c)"
  with assms(1,2) have "toordinal (dt_date e) < toordinal (dt_date c)"
    by (intro toordinal_mono) (simp_all add: valid_datetime_def)
  then have "int (toordinal (dt_date e)) + 1 \<le> int (toordinal (dt_date c))" by simp
  then have "(int (toordinal (dt_date e)) + 1) * 86400000000
               \<le> int (toordinal (dt_date c)) * 86400000000"
    by (rule mult_right_mono) simp
  moreover have "time_us (dt_time e) < 86400000000" "0 \<le> time_us (dt_time c)"
    using assms(1,2) time_us_bounds by (simp_all add: valid_datetime_def)
  ultimately have "local_us e < local_us c"
    by (simp add: local_us_def algebra_simps)
  with assms(3) show False by simp
qed

lemma same_date_of_le:
  assumes "valid_datetime c" "valid_datetime e" "\<not> date_lt (dt_date c) (dt_date e)"
    "local_us c \<le> local_us e"
  shows "dt_date e = dt_date c"
  using not_date_lt_of_le [OF assms(1,2,4)] assms(3) date_trichotomy by blast

lemma split_loop_valid:
  assumes "valid_datetime c" "valid_datetime e"
  shows "snd (split_loop c e) = None
     \<and> list_all forward (butlast (fst (split_loop c e)))
     \<and> list_all within_day (butlast (fst (split_loop c e)))
     \<and> (tzinfo e = tzinfo c \<and> local_us c \<le> local_us e \<longrightarrow>
          forward (last (fst (split_loop c e))) \<and> within_day (last (fst (split_loop c e))))"
  using assms
proof (induction c e rule: split_loop.induct)
  case (1 c e)
  show ?case
  proof (cases "date_lt (dt_date c) (dt_date e)")
    case False
    have "forward (c, e) \<and> within_day (c, e)" if "tzinfo e = tzinfo c" "local_us c \<le> local_us e"
    proof -
      have "dt_date e = dt_date c"
        using "1.prems" False that(2) by (rule same_date_of_le)
      then show ?thesis
        using that by (simp add: forward_def within_day_def utc_us_def)
    qed
    with False show ?thesis by (simp add: split_loop_unfold_ge)
  next
    case True
    have vc: "valid_date (dt_date c)" "valid_time (dt_time c)"
      and ve: "valid_date (dt_date e)" "valid_time (dt_time e)"
      using "1.prems" by (simp_all add: valid_datetime_def)
    from date_add_day_valid [OF vc(1) ve(1) True]
    obtain d where add: "date_add_day (dt_date c) = Inr d" and vd: "valid_date d"
      and ord: "toordinal d = toordinal (dt_date c) + 1" and nlt: "\<not> date_lt (dt_date e) d"
      by blast
    let ?nm = "combine d time_min (tzinfo c)"
    let ?rest = "split_loop ?nm e"
    have unf: "split_loop c e = ((c, ?nm) # fst ?rest, snd ?rest)"
      using True add by (rule split_loop_unfold_lt)
    have vnm: "valid_datetime ?nm"
      using vd "1.prems"(1) by (simp add: valid_datetime_def combine_def time_min_def valid_time_def)
    note IH = "1.IH" [OF True add refl vnm "1.prems"(2)]
    then have none: "snd ?rest = None" by simp
    from split_loop_shape [OF none] have ne: "fst ?rest \<noteq> []" by simp
    have lnm: "local_us ?nm = (int (toordinal (dt_date c)) + 1) * 86400000000"
      using ord by (simp add: local_us_def combine_def time_min_def time_us_def)
    have fw: "forward (c, ?nm)"
    proof -
      have "time_us (dt_time c) < 86400000000" using vc(2) time_us_bounds by simp
      then have "local_us c \<le> local_us ?nm"
        unfolding lnm by (simp add: local_us_def algebra_simps)
      then show ?thesis by (simp add: forward_def utc_us_def combine_def)
    qed
    have wd: "within_day (c, ?nm)"
      using add by (simp add: within_day_def combine_def)
    have le: "local_us ?nm \<le> local_us e"
    proof -
      have "toordinal (dt_date c) < toordinal (dt_date e)"
        using vc(1) ve(1) True by (rule toordinal_mono)
      then have "int (toordinal (dt_date c)) + 1 \<le> int (toordinal (dt_date e))" by simp
      then have "(int (toordinal (dt_date c)) + 1) * 86400000000
                 \<le> int (toordinal (dt_date e)) * 86400000000"
        by (rule mult_right_mono) simp
      moreover have "0 \<le> time_us (dt_time e)" using ve(2) time_us_bounds by simp
      ultimately show ?thesis unfolding lnm by (simp add: local_us_def)
    qed
    have tz: "tzinfo ?nm = tzinfo c" by (simp add: combine_def)
    show ?thesis
      unfolding unf using IH ne fw wd le tz by simp
  qed
qed

lemmas split_eval =
  split_segment_by_day_def split_loop.simps

text \<open>
  Claim C1, as the code has it. For valid \<open>start\<close> and \<open>end\<close> with \<^verbatim>\<open>end >= start\<close>,
  \<^verbatim>\<open>split_segment_by_day\<close> raises nothing and yields a finite, non-empty sequence of
  pairs: the first starts at \<open>start\<close>, the last ends at \<open>end\<close>, each pair ends where the
  next starts, and every pair but the last runs forward from the cursor to the midnight
  after the cursor's date, built with the cursor's \<open>tzinfo\<close>, within one calendar day.
  When \<^verbatim>\<open>end == start\<close> the sequence is the one pair \<open>(start, end)\<close>. When \<open>start\<close> and
  \<open>end\<close> carry the same \<open>tzinfo\<close>, the last pair too runs forward within one calendar
  day, so that the pairs cover exactly the span from \<open>start\<close> to \<open>end\<close> without overlap.
\<close>

theorem split_covers:
  assumes "valid_datetime start" "valid_datetime end" "dt_ge end start = Inr True"
    and "split_segment_by_day start end = (ivs, err)"
  shows "err = None \<and> ivs \<noteq> [] \<and> fst (hd ivs) = start \<and> snd (last ivs) = end
     \<and> contiguous ivs
     \<and> list_all day_step (butlast ivs)
     \<and> list_all forward (butlast ivs) \<and> list_all within_day (butlast ivs)
     \<and> (dt_eq end start \<longrightarrow> ivs = [(start, end)])
     \<and> (tzinfo end = tzinfo start \<longrightarrow> list_all forward ivs \<and> list_all within_day ivs)"
proof -
  from assms(3) have tz: "(tzinfo end = None) = (tzinfo start = None)"
    and le: "utc_us start \<le> utc_us end"
    by (auto simp: dt_ge_def split: if_splits)
  then have lt: "dt_lt end start = Inr False" by (simp add: dt_lt_def)
  show ?thesis
  proof (cases "dt_eq end start")
    case True
    with lt assms(4) have ivs: "ivs = [(start, end)]" and err: "err = None"
      by (simp_all add: split_segment_by_day_def)
    have "forward (start, end) \<and> within_day (start, end)" if same: "tzinfo end = tzinfo start"
    proof -
      from le same have l: "local_us start \<le> local_us end" "local_us end \<le> local_us start"
        using True by (simp_all add: utc_us_def dt_eq_def)
      have "\<not> date_lt (dt_date start) (dt_date end)"
        using assms(2,1) l(2) by (rule not_date_lt_of_le)
      from same_date_of_le [OF assms(1,2) this l(1)] le same
      show ?thesis by (simp add: forward_def within_day_def)
    qed
    with ivs err True show ?thesis by simp
  next
    case False
    with lt assms(4) have sl: "split_loop start end = (ivs, err)"
      by (simp add: split_segment_by_day_def)
    from split_loop_valid [OF assms(1,2)] sl
    have err: "err = None" and fw: "list_all forward (butlast ivs)"
      and wd: "list_all within_day (butlast ivs)"
      and fin: "tzinfo end = tzinfo start \<and> local_us start \<le> local_us end \<longrightarrow>
          forward (last ivs) \<and> within_day (last ivs)"
      by simp_all
    from split_loop_shape [of start "end"] sl err
    have ne: "ivs \<noteq> []" and sh: "fst (hd ivs) = start" "snd (last ivs) = end"
      "contiguous ivs" "list_all day_step (butlast ivs)"
      by simp_all
    have "list_all forward ivs \<and> list_all within_day ivs" if same: "tzinfo end = tzinfo start"
    proof -
      from le same have "local_us start \<le> local_us end" by (simp add: utc_us_def)
      with fin same have "forward (last ivs)" "within_day (last ivs)" by simp_all
      with fw wd have "list_all forward (butlast ivs @ [last ivs])"
        "list_all within_day (butlast ivs @ [last ivs])"
        by simp_all
      with ne show ?thesis by simp
    qed
    with err ne sh fw wd False show ?thesis by simp
  qed
qed

theorem split_covers_witness:
  "valid_datetime (mk_datetime 2024 1 1 23 30 0 0 (Some 0))
   \<and> valid_datetime (mk_datetime 2024 1 2 0 30 0 0 (Some 0))
   \<and> dt_ge (mk_datetime 2024 1 2 0 30 0 0 (Some 0)) (mk_datetime 2024 1 1 23 30 0 0 (Some 0))
        = Inr True
   \<and> split_segment_by_day (mk_datetime 2024 1 1 23 30 0 0 (Some 0))
        (mk_datetime 2024 1 2 0 30 0 0 (Some 0))
      = ([(mk_datetime 2024 1 1 23 30 0 0 (Some 0), mk_datetime 2024 1 2 0 0 0 0 (Some 0)),
          (mk_datetime 2024 1 2 0 0 0 0 (Some 0), mk_datetime 2024 1 2 0 30 0 0 (Some 0))], None)
   \<and> list_all within_day
        [(mk_datetime 2024 1 1 23 30 0 0 (Some 0), mk_datetime 2024 1 2 0 0 0 0 (Some 0)),
         (mk_datetime 2024 1 2 0 0 0 0 (Some 0), mk_datetime 2024 1 2 0 30 0 0 (Some 0))]
   \<and> list_all forward
        [(mk_datetime 2024 1 1 23 30 0 0 (Some 0), mk_datetime 2024 1 2 0 0 0 0 (Some 0)),
         (mk_datetime 2024 1 2 0 0 0 0 (Some 0), mk_datetime 2024 1 2 0 30 0 0 (Some 0))]"
proof -
  let ?s = "mk_datetime 2024 1 1 23 30 0 0 (Some 0)"
  let ?m = "mk_datetime 2024 1 2 0 0 0 0 (Some 0)"
  let ?e = "mk_datetime 2024 1 2 0 30 0 0 (Some 0)"
  have v: "valid_datetime ?s" "valid_datetime ?e"
    by (simp_all add: datetime_eval)
  have ge: "dt_ge ?e ?s = Inr True"
    by (simp add: datetime_eval)
  have sp: "split_segment_by_day ?s ?e = ([(?s, ?m), (?m, ?e)], None)"
    by (simp add: split_eval datetime_eval)
  have tz: "tzinfo ?e = tzinfo ?s" by (simp add: mk_datetime_def)
  from split_covers [OF v ge sp] tz v ge sp show ?thesis by simp
qed

text \<open>
  Claim C1 as stated fails when \<open>start\<close> and \<open>end\<close> carry different offsets: from
  23:00 at +00:00 to 00:30 of the next day at +01:00 (half an hour later), the loop
  yields the pair up to midnight at +00:00 and then a last pair that ends half an hour
  before it starts.
\<close>

theorem split_mixed_offsets_counterexample:
  "valid_datetime (mk_datetime 2024 1 1 23 0 0 0 (Some 0))
   \<and> valid_datetime (mk_datetime 2024 1 2 0 30 0 0 (Some 3600000000))
   \<and> dt_ge (mk_datetime 2024 1 2 0 30 0 0 (Some 3600000000))
        (mk_datetime 2024 1 1 23 0 0 0 (Some 0)) = Inr True
   \<and> split_segment_by_day (mk_datetime 2024 1 1 23 0 0 0 (Some 0))
        (mk_datetime 2024 1 2 0 30 0 0 (Some 3600000000))
      = ([(mk_datetime 2024 1 1 23 0 0 0 (Some 0), mk_datetime 2024 1 2 0 0 0 0 (Some 0)),
          (mk_datetime 2024 1 2 0 0 0 0 (Some 0),
           mk_datetime 2024 1 2 0 30 0 0 (Some 3600000000))], None)
   \<and> \<not> forward (mk_datetime 2024 1 2 0 0 0 0 (Some 0),
                  mk_datetime 2024 1 2 0 30 0 0 (Some 3600000000))
   \<and> \<not> within_day (mk_datetime 2024 1 2 0 0 0 0 (Some 0),
                     mk_datetime 2024 1 2 0 30 0 0 (Some 3600000000))
   \<and> utc_us (mk_datetime 2024 1 2 0 30 0 0 (Some 3600000000))
        < utc_us (mk_datetime 2024 1 2 0 0 0 0 (Some 0))"
  by (simp add: split_eval datetime_eval forward_def within_day_def)

section \<open>The segment summarizer\<close>

lemma ebind_simps [simp]:
  "ebind (Inl e) f = Inl e"
  "ebind (Inr x) f = f x"
  by (simp_all add: ebind_def)

lemma ebind_Inr_iff: "(ebind m f = Inr r) = (\<exists>x. m = Inr x \<and> f x = Inr r)"
  by (cases m) simp_all

lemma py_get_dict [simp]: "py_get (JDict d) k dflt = Inr (dict_get d k dflt)"
  by (simp add: py_get_def)

lemma is_dictE: "is_dict x \<Longrightarrow> (\<And>d. x = JDict d \<Longrightarrow> P) \<Longrightarrow> P"
  by (cases x) (simp_all add: is_dict_def)

lemma lookup_path_get:
  "lookup_path (JDict d) (k # ks) = lookup_path (dict_get d k JNull) ks
     \<or> (map_of d k = None)"
  by (auto simp: dict_get_def split: option.splits)

lemma opt_chain:
  assumes "dict_get d k (JDict []) = JDict t"
  shows "lookup_path (JDict d) [k, k'] = dict_get t k' JNull"
  using assms by (auto simp: dict_get_def split: option.splits)

lemma opt_chain1: "lookup_path (JDict d) [k] = dict_get d k JNull"
  by (auto simp: dict_get_def split: option.splits)

lemma build_activity:
  assumes "has_key segment ''activity''" "well_shaped segment"
  shows "build_segment_details segment incl = Inr (summary_spec segment incl)"
proof -
  from assms obtain a where a: "dict_get segment ''activity'' (JDict []) = JDict a"
    and o: "opt_dict a ''topCandidate''" "opt_dict a ''start''" "opt_dict a ''end''"
    by (auto simp: well_shaped_def split: json.splits)
  from o obtain t s e where t: "dict_get a ''topCandidate'' (JDict []) = JDict t"
    and s: "dict_get a ''start'' (JDict []) = JDict s"
    and e: "dict_get a ''end'' (JDict []) = JDict e"
    unfolding opt_dict_def by (elim is_dictE) blast
  from assms(1) a have m: "map_of segment ''activity'' = Some (JDict a)"
    by (auto simp: has_key_def dict_get_def)
  have lhs: "build_segment_details segment incl =
     Inr [(''segmentType'', JStr ''activity''),
          (''activityType'', dict_get t ''type'' JNull),
          (''activityProbability'', dict_get t ''probability'' JNull),
          (''segmentProbability'', dict_get a ''probability'' JNull),
          (''distanceMeters'', dict_get a ''distanceMeters'' JNull),
          (''startPoint'', dict_get s ''latLng'' JNull),
          (''endPoint'', dict_get e ''latLng'' JNull)]"
    using assms(1) a t s e by (simp add: build_segment_details_def)
  have p3: "lookup_path (JDict segment) [''activity'', k, k'] = lookup_path (JDict a) [k, k']" for k k'
    using m by simp
  have p2: "lookup_path (JDict segment) [''activity'', k] = lookup_path (JDict a) [k]" for k
    using m by simp
  show ?thesis
    unfolding lhs summary_spec_def Let_def p3 p2 opt_chain [OF t] opt_chain [OF s] opt_chain [OF e]
      opt_chain1
    using assms(1) by simp
qed


lemma build_visit:
  assumes "\<not> has_key segment ''activity''" "has_key segment ''visit''" "well_shaped segment"
  shows "build_segment_details segment incl = Inr (summary_spec segment incl)"
proof -
  from assms obtain v t where v: "dict_get segment ''visit'' (JDict []) = JDict v"
    and t: "dict_get v ''topCandidate'' (JDict []) = JDict t"
    and o: "opt_dict t ''placeLocation''"
    by (auto simp: well_shaped_def split: json.splits)
  from o obtain l where l: "dict_get t ''placeLocation'' (JDict []) = JDict l"
    unfolding opt_dict_def by (elim is_dictE) blast
  from assms(2) v have m: "map_of segment ''visit'' = Some (JDict v)"
    by (auto simp: has_key_def dict_get_def)
  have lhs: "build_segment_details segment incl =
     Inr [(''segmentType'', JStr ''visit''),
          (''visitProbability'', dict_get v ''probability'' JNull),
          (''placeId'', dict_get t ''placeId'' JNull),
          (''semanticType'', dict_get t ''semanticType'' JNull),
          (''placeLocation'', dict_get l ''latLng'' JNull)]"
    using assms(1,2) v t l by (simp add: build_segment_details_def)
  have p: "lookup_path (JDict segment) (''visit'' # ks) = lookup_path (JDict v) ks" for ks
    using m by simp
  have q: "lookup_path (JDict v) [''topCandidate'', ''placeLocation'', ''latLng'']
             = dict_get l ''latLng'' JNull"
  proof (cases "map_of v ''topCandidate''")
    case None
    with t have "t = []" by (simp add: dict_get_def)
    with l have "l = []" by (simp add: dict_get_def)
    with None show ?thesis by (simp add: dict_get_def)
  next
    case (Some w)
    with t have "w = JDict t" by (simp add: dict_get_def)
    with Some show ?thesis using opt_chain [OF l, of "''latLng''"] by simp
  qed
  show ?thesis
    unfolding lhs summary_spec_def Let_def p q opt_chain [OF t] opt_chain1
    using assms(1,2) by simp
qed

lemma build_path:
  assumes "\<not> has_key segment ''activity''" "\<not> has_key segment ''visit''" "well_shaped segment"
  shows "build_segment_details segment incl = Inr (summary_spec segment incl)"
proof -
  from assms obtain ps where ps: "dict_get segment ''timelinePath'' (JList []) = JList ps"
    and sh: "ps = [] \<or> (is_dict (hd ps) \<and> is_dict (last ps))"
    by (auto simp: well_shaped_def split: json.splits)
  show ?thesis
  proof (cases "ps = []")
    case True
    with assms(1,2) ps show ?thesis
      by (simp add: build_segment_details_def summary_spec_def py_len_def truthy_def)
  next
    case False
    with sh obtain f l where f: "hd ps = JDict f" and l: "last ps = JDict l"
      by (auto elim!: is_dictE)
    from False f have pf: "py_first (JList ps) = Inr (JDict f)"
      by (cases ps) (simp_all add: py_first_def)
    from False l have pl: "py_last (JList ps) = Inr (JDict l)"
      by (simp add: py_last_def)
    show ?thesis
      using assms(1,2) ps False pf pl f l
      by (simp add: build_segment_details_def summary_spec_def py_len_def truthy_def opt_chain1
            del: lookup_path.simps)
  qed
qed

text \<open>
  Claim C2, as the code has it. On every segment dict whose nested structures are of
  the shape \<open>well_shaped\<close> (each of \<^verbatim>\<open>activity\<close>, \<^verbatim>\<open>visit\<close>, \<^verbatim>\<open>topCandidate\<close>,
  \<^verbatim>\<open>start\<close>, \<^verbatim>\<open>end\<close>, \<^verbatim>\<open>placeLocation\<close> a dict when present; \<^verbatim>\<open>timelinePath\<close> a list whose
  first and last points are dicts), \<^verbatim>\<open>build_segment_details\<close> raises nothing and
  returns the summary of the specification, in which every missing nested field is
  null.
\<close>

theorem build_segment_details_total:
  assumes "well_shaped segment"
  shows "build_segment_details segment include_timeline_points
           = Inr (summary_spec segment include_timeline_points)"
  using assms build_activity build_visit build_path by blast

theorem build_segment_details_total_witness:
  "well_shaped [(''activity'', JDict [(''distanceMeters'', JInt 1200)])]
   \<and> build_segment_details [(''activity'', JDict [(''distanceMeters'', JInt 1200)])] False
       = Inr [(''segmentType'', JStr ''activity''),
              (''activityType'', JNull),
              (''activityProbability'', JNull),
              (''segmentProbability'', JNull),
              (''distanceMeters'', JInt 1200),
              (''startPoint'', JNull),
              (''endPoint'', JNull)]"
proof -
  have w: "well_shaped [(''activity'', JDict [(''distanceMeters'', JInt 1200)])]"
    by (simp add: well_shaped_def has_key_def dict_get_def opt_dict_def is_dict_def)
  have s: "summary_spec [(''activity'', JDict [(''distanceMeters'', JInt 1200)])] False
       = [(''segmentType'', JStr ''activity''),
              (''activityType'', JNull),
              (''activityProbability'', JNull),
              (''segmentProbability'', JNull),
              (''distanceMeters'', JInt 1200),
              (''startPoint'', JNull),
              (''endPoint'', JNull)]"
    by (simp add: summary_spec_def has_key_def)
  from build_segment_details_total [OF w, of False] w s show ?thesis by simp
qed

text \<open>
  Claim C2 as stated fails for a nested structure that is present and not a dict:
  on \<^verbatim>\<open>{"activity": null}\<close> the call \<^verbatim>\<open>activity.get\<close> raises \<^verbatim>\<open>AttributeError\<close>.
\<close>

theorem build_segment_details_raises_counterexample:
  "build_segment_details [(''activity'', JNull)] False = Inl AttributeError"
  by (simp add: build_segment_details_def has_key_def dict_get_def py_get_def)

text \<open>
  The outcome (summary or exception) is the one for the segment reduced to the
  selected key, whatever the other keys are, and a returned summary carries the
  selected variant.
\<close>

lemma variant_outcome:
  "(has_key segment ''activity'' \<longrightarrow>
      build_segment_details segment incl
        = build_segment_details [(''activity'', dict_get segment ''activity'' JNull)] incl)
   \<and> (\<not> has_key segment ''activity'' \<and> has_key segment ''visit'' \<longrightarrow>
      build_segment_details segment incl
        = build_segment_details [(''visit'', dict_get segment ''visit'' JNull)] incl)
   \<and> (\<not> has_key segment ''activity'' \<and> \<not> has_key segment ''visit'' \<longrightarrow>
      build_segment_details segment incl
        = build_segment_details
            [(''timelinePath'', dict_get segment ''timelinePath'' (JList []))] incl)
   \<and> (\<forall>r. build_segment_details segment incl = Inr r \<longrightarrow>
        map_of r ''segmentType''
          = Some (JStr (if has_key segment ''activity'' then ''activity''
                        else if has_key segment ''visit'' then ''visit''
                        else ''timelinePath''))
        \<and> (has_key r ''timelinePath''
             = (incl \<and> \<not> has_key segment ''activity'' \<and> \<not> has_key segment ''visit''))
        \<and> (has_key r ''timelinePath'' \<longrightarrow>
             map_of r ''timelinePath''
               = Some (dict_get segment ''timelinePath'' (JList []))))"
proof -
  let ?B = "build_segment_details"
  have act: "?B segment incl = ?B [(''activity'', dict_get segment ''activity'' JNull)] incl"
    if "has_key segment ''activity''"
  proof -
    from that have "dict_get segment ''activity'' (JDict [])
        = dict_get segment ''activity'' JNull"
      by (auto simp: has_key_def dict_get_def)
    with that show ?thesis
      by (simp add: build_segment_details_def has_key_def dict_get_def)
  qed
  have vis: "?B segment incl = ?B [(''visit'', dict_get segment ''visit'' JNull)] incl"
    if "\<not> has_key segment ''activity''" "has_key segment ''visit''"
  proof -
    from that have "dict_get segment ''visit'' (JDict []) = dict_get segment ''visit'' JNull"
      by (auto simp: has_key_def dict_get_def)
    with that show ?thesis
      by (simp add: build_segment_details_def has_key_def dict_get_def)
  qed
  have path: "?B segment incl
      = ?B [(''timelinePath'', dict_get segment ''timelinePath'' (JList []))] incl"
    if "\<not> has_key segment ''activity''" "\<not> has_key segment ''visit''"
    using that by (simp add: build_segment_details_def has_key_def dict_get_def)
  have res: "map_of r ''segmentType''
          = Some (JStr (if has_key segment ''activity'' then ''activity''
                        else if has_key segment ''visit'' then ''visit''
                        else ''timelinePath''))
        \<and> (has_key r ''timelinePath''
             = (incl \<and> \<not> has_key segment ''activity'' \<and> \<not> has_key segment ''visit''))
        \<and> (has_key r ''timelinePath'' \<longrightarrow>
             map_of r ''timelinePath''
               = Some (dict_get segment ''timelinePath'' (JList [])))"
    if r: "?B segment incl = Inr r" for r
  proof -
    consider (a) "has_key segment ''activity''"
      | (v) "\<not> has_key segment ''activity''" "has_key segment ''visit''"
      | (p) "\<not> has_key segment ''activity''" "\<not> has_key segment ''visit''"
      by blast
    then show ?thesis
    proof cases
      case a
      with r show ?thesis
        unfolding build_segment_details_def Let_def
        by (auto simp: ebind_Inr_iff has_key_def [of "_ # _"])
    next
      case v
      with r show ?thesis
        unfolding build_segment_details_def Let_def
        by (auto simp: ebind_Inr_iff has_key_def [of "_ # _"])
    next
      case p
      with r show ?thesis
        unfolding build_segment_details_def Let_def
        by (auto simp: ebind_Inr_iff has_key_def [of "_ # _"] split: if_splits)
    qed
  qed
  from act vis path res show ?thesis by blast
qed

text \<open>
  Claim C6, as the code has it. The variant is selected by key presence, \<^verbatim>\<open>activity\<close>
  before \<^verbatim>\<open>visit\<close> before the \<^verbatim>\<open>timelinePath\<close> fallback, whatever the other keys are.
  On a segment of the shape \<open>well_shaped\<close> the summary of the selected variant is
  returned: with \<^verbatim>\<open>activity\<close> present the seven items of the activity summary, read
  from the \<^verbatim>\<open>activity\<close> payload; otherwise with \<^verbatim>\<open>visit\<close> present the five items of
  the visit summary, read from the \<^verbatim>\<open>visit\<close> payload; otherwise the fallback summary
  with the point count, the first and last point when there are points, and, exactly
  when the flag is set, the item \<^verbatim>\<open>timelinePath\<close> holding the point list as it is. On
  every segment the outcome is the one for the segment reduced to the selected key.
\<close>

theorem build_segment_details_variant:
  "(has_key segment ''activity'' \<longrightarrow>
      build_segment_details segment incl
        = build_segment_details [(''activity'', dict_get segment ''activity'' JNull)] incl
      \<and> (well_shaped segment \<longrightarrow>
           build_segment_details segment incl =
             Inr [(''segmentType'', JStr ''activity''),
                  (''activityType'',
                     lookup_path (JDict segment) [''activity'', ''topCandidate'', ''type'']),
                  (''activityProbability'',
                     lookup_path (JDict segment)
                       [''activity'', ''topCandidate'', ''probability'']),
                  (''segmentProbability'',
                     lookup_path (JDict segment) [''activity'', ''probability'']),
                  (''distanceMeters'',
                     lookup_path (JDict segment) [''activity'', ''distanceMeters'']),
                  (''startPoint'',
                     lookup_path (JDict segment) [''activity'', ''start'', ''latLng'']),
                  (''endPoint'',
                     lookup_path (JDict segment) [''activity'', ''end'', ''latLng''])]))
   \<and> (\<not> has_key segment ''activity'' \<and> has_key segment ''visit'' \<longrightarrow>
      build_segment_details segment incl
        = build_segment_details [(''visit'', dict_get segment ''visit'' JNull)] incl
      \<and> (well_shaped segment \<longrightarrow>
           build_segment_details segment incl =
             Inr [(''segmentType'', JStr ''visit''),
                  (''visitProbability'',
                     lookup_path (JDict segment) [''visit'', ''probability'']),
                  (''placeId'',
                     lookup_path (JDict segment) [''visit'', ''topCandidate'', ''placeId'']),
                  (''semanticType'',
                     lookup_path (JDict segment)
                       [''visit'', ''topCandidate'', ''semanticType'']),
                  (''placeLocation'',
                     lookup_path (JDict segment)
                       [''visit'', ''topCandidate'', ''placeLocation'', ''latLng''])]))
   \<and> (\<not> has_key segment ''activity'' \<and> \<not> has_key segment ''visit'' \<longrightarrow>
      build_segment_details segment incl
        = build_segment_details
            [(''timelinePath'', dict_get segment ''timelinePath'' (JList []))] incl
      \<and> (well_shaped segment \<longrightarrow>
           (\<exists>ps. dict_get segment ''timelinePath'' (JList []) = JList ps
              \<and> build_segment_details segment incl =
                  Inr ([(''segmentType'', JStr ''timelinePath''),
                        (''pointCount'', JInt (int (length ps)))]
                       @ (if ps = [] then []
                          else [(''firstPoint'', lookup_path (hd ps) [''point'']),
                                (''lastPoint'', lookup_path (last ps) [''point''])])
                       @ (if incl then [(''timelinePath'', JList ps)] else [])))))
   \<and> (\<forall>r. build_segment_details segment incl = Inr r \<longrightarrow>
        map_of r ''segmentType''
          = Some (JStr (if has_key segment ''activity'' then ''activity''
                        else if has_key segment ''visit'' then ''visit''
                        else ''timelinePath''))
        \<and> (has_key r ''timelinePath''
             = (incl \<and> \<not> has_key segment ''activity'' \<and> \<not> has_key segment ''visit''))
        \<and> (has_key r ''timelinePath'' \<longrightarrow>
             map_of r ''timelinePath''
               = Some (dict_get segment ''timelinePath'' (JList []))))"
proof -
  have a: "build_segment_details segment incl =
             Inr [(''segmentType'', JStr ''activity''),
                  (''activityType'',
                     lookup_path (JDict segment) [''activity'', ''topCandidate'', ''type'']),
                  (''activityProbability'',
                     lookup_path (JDict segment)
                       [''activity'', ''topCandidate'', ''probability'']),
                  (''segmentProbability'',
                     lookup_path (JDict segment) [''activity'', ''probability'']),
                  (''distanceMeters'',
                     lookup_path (JDict segment) [''activity'', ''distanceMeters'']),
                  (''startPoint'',
                     lookup_path (JDict segment) [''activity'', ''start'', ''latLng'']),
                  (''endPoint'',
                     lookup_path (JDict segment) [''activity'', ''end'', ''latLng''])]"
    if "has_key segment ''activity''" "well_shaped segment"
    using build_activity [OF that, of incl] that(1)
    by (simp add: summary_spec_def Let_def del: lookup_path.simps)
  have v: "build_segment_details segment incl =
             Inr [(''segmentType'', JStr ''visit''),
                  (''visitProbability'',
                     lookup_path (JDict segment) [''visit'', ''probability'']),
                  (''placeId'',
                     lookup_path (JDict segment) [''visit'', ''topCandidate'', ''placeId'']),
                  (''semanticType'',
                     lookup_path (JDict segment)
                       [''visit'', ''topCandidate'', ''semanticType'']),
                  (''placeLocation'',
                     lookup_path (JDict segment)
                       [''visit'', ''topCandidate'', ''placeLocation'', ''latLng''])]"
    if "\<not> has_key segment ''activity''" "has_key segment ''visit''" "well_shaped segment"
    using build_visit [OF that, of incl] that(1,2)
    by (simp add: summary_spec_def Let_def del: lookup_path.simps)
  have p: "\<exists>ps. dict_get segment ''timelinePath'' (JList []) = JList ps
              \<and> build_segment_details segment incl =
                  Inr ([(''segmentType'', JStr ''timelinePath''),
                        (''pointCount'', JInt (int (length ps)))]
                       @ (if ps = [] then []
                          else [(''firstPoint'', lookup_path (hd ps) [''point'']),
                                (''lastPoint'', lookup_path (last ps) [''point''])])
                       @ (if incl then [(''timelinePath'', JList ps)] else []))"
    if "\<not> has_key segment ''activity''" "\<not> has_key segment ''visit''" "well_shaped segment"
  proof -
    from that obtain ps where ps: "dict_get segment ''timelinePath'' (JList []) = JList ps"
      by (auto simp: well_shaped_def split: json.splits)
    with build_path [OF that, of incl] that(1,2) show ?thesis
      by (simp add: summary_spec_def Let_def del: lookup_path.simps)
  qed
  from variant_outcome [of segment incl] a v p show ?thesis by blast
qed

theorem build_segment_details_variant_witness:
  "well_shaped both_segment \<and> has_key both_segment ''activity''
   \<and> has_key both_segment ''visit''
   \<and> build_segment_details both_segment True
       = Inr [(''segmentType'', JStr ''activity''),
              (''activityType'', JStr ''WALKING''),
              (''activityProbability'', JNull),
              (''segmentProbability'', JNull),
              (''distanceMeters'', JInt 1200),
              (''startPoint'', JNull),
              (''endPoint'', JNull)]
   \<and> well_shaped visit_segment \<and> \<not> has_key visit_segment ''activity''
   \<and> has_key visit_segment ''visit'' \<and> has_key visit_segment ''timelinePath''
   \<and> build_segment_details visit_segment True
       = Inr [(''segmentType'', JStr ''visit''),
              (''visitProbability'', JNull),
              (''placeId'', JStr ''P1''),
              (''semanticType'', JStr ''HOME''),
              (''placeLocation'', JNull)]
   \<and> well_shaped path_segment \<and> \<not> has_key path_segment ''activity''
   \<and> \<not> has_key path_segment ''visit''
   \<and> build_segment_details path_segment True
       = Inr [(''segmentType'', JStr ''timelinePath''),
              (''pointCount'', JInt 2),
              (''firstPoint'', JStr ''a''),
              (''lastPoint'', JStr ''b''),
              (''timelinePath'',
                 JList [JDict [(''point'', JStr ''a'')], JDict [(''point'', JStr ''b'')]])]
   \<and> build_segment_details path_segment False
       = Inr [(''segmentType'', JStr ''timelinePath''),
              (''pointCount'', JInt 2),
              (''firstPoint'', JStr ''a''),
              (''lastPoint'', JStr ''b'')]"
proof -
  have w: "well_shaped both_segment" "well_shaped visit_segment" "well_shaped path_segment"
    by (simp_all add: summarizer_eval)
  have k: "has_key both_segment ''activity''" "has_key both_segment ''visit''"
    "\<not> has_key visit_segment ''activity''" "has_key visit_segment ''visit''"
    "has_key visit_segment ''timelinePath''"
    "\<not> has_key path_segment ''activity''" "\<not> has_key path_segment ''visit''"
    by (simp_all add: summarizer_eval)
  have l: "lookup_path (JDict both_segment) [''activity'', ''topCandidate'', ''type'']
             = JStr ''WALKING''"
    "lookup_path (JDict both_segment) [''activity'', ''topCandidate'', ''probability''] = JNull"
    "lookup_path (JDict both_segment) [''activity'', ''probability''] = JNull"
    "lookup_path (JDict both_segment) [''activity'', ''distanceMeters''] = JInt 1200"
    "lookup_path (JDict both_segment) [''activity'', ''start'', ''latLng''] = JNull"
    "lookup_path (JDict both_segment) [''activity'', ''end'', ''latLng''] = JNull"
    "lookup_path (JDict visit_segment) [''visit'', ''probability''] = JNull"
    "lookup_path (JDict visit_segment) [''visit'', ''topCandidate'', ''placeId''] = JStr ''P1''"
    "lookup_path (JDict visit_segment) [''visit'', ''topCandidate'', ''semanticType'']
       = JStr ''HOME''"
    "lookup_path (JDict visit_segment)
       [''visit'', ''topCandidate'', ''placeLocation'', ''latLng''] = JNull"
    by (simp_all add: both_segment_def visit_segment_def)
  have g: "dict_get path_segment ''timelinePath'' (JList [])
      = JList [JDict [(''point'', JStr ''a'')], JDict [(''point'', JStr ''b'')]]"
    by (simp add: path_segment_def dict_get_def)
  have a: "build_segment_details both_segment True
       = Inr [(''segmentType'', JStr ''activity''),
              (''activityType'', JStr ''WALKING''),
              (''activityProbability'', JNull),
              (''segmentProbability'', JNull),
              (''distanceMeters'', JInt 1200),
              (''startPoint'', JNull),
              (''endPoint'', JNull)]"
    using build_segment_details_variant [of both_segment True] w(1) k(1)
    unfolding l by blast
  have v: "build_segment_details visit_segment True
       = Inr [(''segmentType'', JStr ''visit''),
              (''visitProbability'', JNull),
              (''placeId'', JStr ''P1''),
              (''semanticType'', JStr ''HOME''),
              (''placeLocation'', JNull)]"
    using build_segment_details_variant [of visit_segment True] w(2) k(3,4)
    unfolding l by blast
  have p: "\<exists>ps. dict_get path_segment ''timelinePath'' (JList []) = JList ps
              \<and> build_segment_details path_segment incl =
                  Inr ([(''segmentType'', JStr ''timelinePath''),
                        (''pointCount'', JInt (int (length ps)))]
                       @ (if ps = [] then []
                          else [(''firstPoint'', lookup_path (hd ps) [''point'']),
                                (''lastPoint'', lookup_path (last ps) [''point''])])
                       @ (if incl then [(''timelinePath'', JList ps)] else []))" for incl
    using build_segment_details_variant [of path_segment incl] w(3) k(6,7) by blast
  from p [of True] p [of False] a v w k show ?thesis
    unfolding g by simp
qed

text \<open>
  Claim C6 as stated fails where the payload under the selected key is not a dict:
  on \<^verbatim>\<open>{"visit": "home"}\<close> the visit variant is selected and \<^verbatim>\<open>visit.get\<close> raises
  \<^verbatim>\<open>AttributeError\<close>, so no visit summary is produced.
\<close>

theorem build_segment_details_variant_counterexample:
  "has_key [(''visit'', JStr ''home'')] ''visit''
   \<and> \<not> has_key [(''visit'', JStr ''home'')] ''activity''
   \<and> build_segment_details [(''visit'', JStr ''home'')] True = Inl AttributeError"
  by (simp add: build_segment_details_def has_key_def dict_get_def py_get_def)

section \<open>The aggregation in terms of the collected slices\<close>

lemma add_all_simps [simp]:
  "add_all ds [] = ds"
  "add_all ds (ks # kss) = add_all (days_append ds (fst ks) (snd ks)) kss"
  by (simp_all add: add_all_def)

lemma add_all_append: "add_all ds (a @ b) = add_all (add_all ds a) b"
  by (simp add: add_all_def)

lemma add_slices_eq:
  "add_slices r i st et dets ds ivs
     = ebind (make_slices r i st et dets ivs) (\<lambda>kss. Inr (add_all ds kss))"
proof (induction ivs arbitrary: ds)
  case Nil
  show ?case by simp
next
  case (Cons iv ivs)
  show ?case
  proof (cases "make_slice r i st et dets iv")
    case (Inl e)
    then show ?thesis by simp
  next
    case (Inr ks)
    then show ?thesis
      by (cases ks; cases "make_slices r i st et dets ivs") (simp_all add: Cons.IH)
  qed
qed

lemma ebind_assoc: "ebind (ebind m f) g = ebind m (\<lambda>x. ebind (f x) g)"
  by (cases m) simp_all

lemma process_segment_eq:
  "process_segment f r incl ds p
     = ebind (slices_of_segment f r incl p) (\<lambda>kss. Inr (add_all ds kss))"
proof -
  obtain index segment where p: "p = (index, segment)" by (cases p)
  have inner: "(case err of None \<Rightarrow> Inr ds' | Some e \<Rightarrow> Inl e)
       = ebind (case err of None \<Rightarrow> Inr kss | Some e \<Rightarrow> Inl e) (\<lambda>kss. Inr (add_all ds kss))"
    if "ds' = add_all ds kss" for err :: "error option" and ds' kss
    using that by (cases err) simp_all
  show ?thesis
    unfolding p process_segment_def slices_of_segment_def prod.case ebind_assoc add_slices_eq
    by (auto simp: ebind_def split: sum.splits prod.splits option.splits)
qed

lemma process_segments_eq:
  "process_segments f r incl ds ps
     = ebind (collect_slices f r incl ps) (\<lambda>kss. Inr (add_all ds kss))"
proof (induction ps arbitrary: ds)
  case Nil
  show ?case by simp
next
  case (Cons p ps)
  show ?case
    by (cases "slices_of_segment f r incl p"; cases "collect_slices f r incl ps")
       (simp_all add: process_segment_eq Cons.IH add_all_append)
qed

lemma days_append_keys:
  "map fst (days_append ds k s)
     = (if k \<in> set (map fst ds) then map fst ds else map fst ds @ [k])"
  by (induction ds) (auto simp: days_append_def split: prod.splits)

lemma days_lookup_append:
  "days_lookup (days_append ds k s) k'
     = (if k' = k then days_lookup ds k @ [s] else days_lookup ds k')"
proof (cases "k \<in> set (map fst ds)")
  case False
  then have "map_of ds k = None" by (simp add: map_of_eq_None_iff)
  with False show ?thesis
    by (auto simp: days_append_def days_lookup_def map_add_def split: option.splits)
next
  case True
  have "map_of (map (\<lambda>(k', b). if k' = k then (k', b @ [s]) else (k', b)) ds) k'
      = (if k' = k then map_option (\<lambda>b. b @ [s]) (map_of ds k) else map_of ds k')"
    by (induction ds) auto
  moreover from True obtain b where "map_of ds k = Some b"
    by (cases "map_of ds k") (auto simp: map_of_eq_None_iff)
  ultimately show ?thesis
    using True by (simp add: days_append_def days_lookup_def)
qed

lemma days_append_key_set:
  "fst ` set (days_append ds k s) = insert k (fst ` set ds)"
proof -
  have "set (map fst (days_append ds k s)) = insert k (set (map fst ds))"
    unfolding days_append_keys by auto
  then show ?thesis by simp
qed

lemma add_all_keys:
  "fst ` set (add_all ds kss) = fst ` set ds \<union> fst ` set kss"
  by (induction kss arbitrary: ds) (simp_all add: days_append_key_set)

lemma add_all_distinct:
  "distinct (map fst ds) \<Longrightarrow> distinct (map fst (add_all ds kss))"
  by (induction kss arbitrary: ds) (simp_all add: days_append_keys)

lemma add_all_lookup:
  "days_lookup (add_all ds kss) k = days_lookup ds k @ bucket k kss"
  by (induction kss arbitrary: ds) (auto simp: days_lookup_append bucket_def)

lemma sort_buckets_keys: "map fst (sort_buckets ds) = map fst ds"
  by (induction ds) (auto simp: sort_buckets_def)

lemma sort_buckets_lookup:
  "days_lookup (sort_buckets ds) k = sort_key startTime (days_lookup ds k)"
  by (induction ds) (auto simp: sort_buckets_def days_lookup_def)

lemma sort_keys_eq:
  assumes "distinct xs" "set xs = set ys"
  shows "sort xs = sort (remdups (ys::string list))"
proof (rule sorted_distinct_set_unique)
  show "sorted (sort xs)" "sorted (sort (remdups ys))" by simp_all
  show "distinct (sort xs)" using assms(1) by simp
  show "distinct (sort (remdups ys))" by simp
  show "set (sort xs) = set (sort (remdups ys))" using assms(2) by simp
qed

lemma finish_eq:
  "by_sorted_day (sort_buckets (add_all [] kss)) = grouped kss"
proof -
  have k: "sort (map fst (add_all [] kss)) = sort (remdups (map fst kss))"
    by (rule sort_keys_eq) (simp_all add: add_all_distinct add_all_keys)
  have l: "days_lookup (sort_buckets (add_all [] kss)) k = sort_key startTime (bucket k kss)" for k
  proof -
    have "days_lookup [] k = []" by (simp add: days_lookup_def)
    then show ?thesis by (simp add: sort_buckets_lookup add_all_lookup)
  qed
  show ?thesis
    by (simp add: by_sorted_day_def sort_buckets_keys k l grouped_def)
qed

lemma parse_enumerated_eq:
  "parse_enumerated f r ps incl
     = ebind (collect_slices f r incl ps) (\<lambda>kss. Inr (grouped kss))"
  by (cases "collect_slices f r incl ps")
     (simp_all add: parse_enumerated_def process_segments_eq finish_eq)

section \<open>Successful runs\<close>

lemma make_slice_Inr:
  assumes "make_slice r i st et dets iv = Inr ks"
  shows "fst ks = date_isoformat (dt_date (fst iv))"
    and "snd ks = \<lparr>segmentIndex = i, startTime = dt_isoformat (fst iv),
            endTime = dt_isoformat (snd iv),
            durationMinutes = duration_minutes r (utc_us (snd iv) - utc_us (fst iv)),
            originalStartTime = st, originalEndTime = et, details = dets\<rparr>"
  using assms
  by (auto simp: make_slice_def dt_sub_def split: prod.splits if_splits)

lemma make_slices_Inr:
  "make_slices r i st et dets ivs = Inr kss \<Longrightarrow>
     list_all2 (\<lambda>iv ks. make_slice r i st et dets iv = Inr ks) ivs kss"
proof (induction ivs arbitrary: kss)
  case Nil
  then show ?case by simp
next
  case (Cons iv ivs)
  then show ?case by (auto simp: ebind_Inr_iff)
qed

text \<open>What a successful run of the outer loop body gives.\<close>

lemma slices_of_segment_Inr:
  assumes "slices_of_segment f r incl (i, seg) = Inr kss"
  obtains st et start en dets ivs where
    "py_getitem seg ''startTime'' = Inr st" "parse_iso8601 f st = Inr start"
    "py_getitem seg ''endTime'' = Inr et" "parse_iso8601 f et = Inr en"
    "split_segment_by_day start en = (ivs, None)"
    "list_all2 (\<lambda>iv ks. make_slice r i st et dets iv = Inr ks) ivs kss"
proof -
  from assms have "ebind (py_getitem seg ''startTime'') (\<lambda>st.
        ebind (parse_iso8601 f st) (\<lambda>start.
        ebind (py_getitem seg ''endTime'') (\<lambda>et.
        ebind (parse_iso8601 f et) (\<lambda>end.
        ebind (case seg of JDict d \<Rightarrow> build_segment_details d incl | _ \<Rightarrow> Inl TypeError)
          (\<lambda>dets.
        (case split_segment_by_day start end of (ivs, err) \<Rightarrow>
           ebind (make_slices r i st et dets ivs) (\<lambda>kss.
           (case err of None \<Rightarrow> Inr kss | Some e \<Rightarrow> Inl e)))))))) = Inr kss"
    by (simp add: slices_of_segment_def)
  then obtain st where a1: "py_getitem seg ''startTime'' = Inr st"
    and "ebind (parse_iso8601 f st) (\<lambda>start.
        ebind (py_getitem seg ''endTime'') (\<lambda>et.
        ebind (parse_iso8601 f et) (\<lambda>end.
        ebind (case seg of JDict d \<Rightarrow> build_segment_details d incl | _ \<Rightarrow> Inl TypeError)
          (\<lambda>dets.
        (case split_segment_by_day start end of (ivs, err) \<Rightarrow>
           ebind (make_slices r i st et dets ivs) (\<lambda>kss.
           (case err of None \<Rightarrow> Inr kss | Some e \<Rightarrow> Inl e))))))) = Inr kss"
    by (subst (asm) ebind_Inr_iff) blast
  then obtain start where a2: "parse_iso8601 f st = Inr start"
    and "ebind (py_getitem seg ''endTime'') (\<lambda>et.
        ebind (parse_iso8601 f et) (\<lambda>end.
        ebind (case seg of JDict d \<Rightarrow> build_segment_details d incl | _ \<Rightarrow> Inl TypeError)
          (\<lambda>dets.
        (case split_segment_by_day start end of (ivs, err) \<Rightarrow>
           ebind (make_slices r i st et dets ivs) (\<lambda>kss.
           (case err of None \<Rightarrow> Inr kss | Some e \<Rightarrow> Inl e)))))) = Inr kss"
    by (subst (asm) ebind_Inr_iff) blast
  then obtain et where a3: "py_getitem seg ''endTime'' = Inr et"
    and "ebind (parse_iso8601 f et) (\<lambda>end.
        ebind (case seg of JDict d \<Rightarrow> build_segment_details d incl | _ \<Rightarrow> Inl TypeError)
          (\<lambda>dets.
        (case split_segment_by_day start end of (ivs, err) \<Rightarrow>
           ebind (make_slices r i st et dets ivs) (\<lambda>kss.
           (case err of None \<Rightarrow> Inr kss | Some e \<Rightarrow> Inl e))))) = Inr kss"
    by (subst (asm) ebind_Inr_iff) blast
  then obtain en where a4: "parse_iso8601 f et = Inr en"
    and "ebind (case seg of JDict d \<Rightarrow> build_segment_details d incl | _ \<Rightarrow> Inl TypeError)
          (\<lambda>dets.
        (case split_segment_by_day start en of (ivs, err) \<Rightarrow>
           ebind (make_slices r i st et dets ivs) (\<lambda>kss.
           (case err of None \<Rightarrow> Inr kss | Some e \<Rightarrow> Inl e)))) = Inr kss"
    by (subst (asm) ebind_Inr_iff) blast
  then obtain dets where
    a5: "(case split_segment_by_day start en of (ivs, err) \<Rightarrow>
           ebind (make_slices r i st et dets ivs) (\<lambda>kss.
           (case err of None \<Rightarrow> Inr kss | Some e \<Rightarrow> Inl e))) = Inr kss"
    by (subst (asm) ebind_Inr_iff) blast
  obtain ivs err where sp: "split_segment_by_day start en = (ivs, err)"
    by (cases "split_segment_by_day start en")
  with a5 have "ebind (make_slices r i st et dets ivs)
      (\<lambda>kss. case err of None \<Rightarrow> Inr kss | Some e \<Rightarrow> Inl e) = Inr kss"
    by simp
  then obtain kss' where c: "make_slices r i st et dets ivs = Inr kss'"
    and d: "(case err of None \<Rightarrow> Inr kss' | Some e \<Rightarrow> Inl e) = Inr kss"
    unfolding ebind_Inr_iff by blast
  from d have "err = None" "kss' = kss" by (cases err; simp)+
  with a1 a2 a3 a4 sp c make_slices_Inr show ?thesis using that by blast
qed

lemma slices_of_segment_start:
  assumes "slices_of_segment f r incl p = Inr kss" "ks \<in> set kss"
  shows "\<exists>a. slice_of_start ks a"
proof -
  obtain i seg where p: "p = (i, seg)" by (cases p)
  from assms(1) [unfolded p] obtain st et dets ivs where
    l: "list_all2 (\<lambda>iv ks. make_slice r i st et dets iv = Inr ks) ivs kss"
    by (rule slices_of_segment_Inr)
  from assms(2) obtain n where n: "n < length kss" "ks = kss ! n"
    by (auto simp: in_set_conv_nth)
  with l have "make_slice r i st et dets (ivs ! n) = Inr ks"
    by (simp add: list_all2_conv_all_nth)
  from make_slice_Inr [OF this] show ?thesis by (auto simp: slice_of_start_def)
qed

lemma collect_slices_Inr:
  "collect_slices f r incl ps = Inr kss \<Longrightarrow>
     list_all2 (\<lambda>p a. slices_of_segment f r incl p = Inr a) ps
        (map (\<lambda>p. projr (slices_of_segment f r incl p)) ps)
     \<and> kss = concat (map (\<lambda>p. projr (slices_of_segment f r incl p)) ps)"
proof (induction ps arbitrary: kss)
  case Nil
  then show ?case by simp
next
  case (Cons p ps)
  then show ?case by (auto simp: ebind_Inr_iff)
qed

lemma collect_slices_start:
  assumes "collect_slices f r incl ps = Inr kss" "ks \<in> set kss"
  shows "\<exists>a. slice_of_start ks a"
proof -
  from collect_slices_Inr [OF assms(1)] assms(2)
  obtain p where p: "p \<in> set ps" and m: "ks \<in> set (projr (slices_of_segment f r incl p))"
    and l: "list_all2 (\<lambda>p a. slices_of_segment f r incl p = Inr a) ps
        (map (\<lambda>p. projr (slices_of_segment f r incl p)) ps)"
    by auto
  from p l have "slices_of_segment f r incl p = Inr (projr (slices_of_segment f r incl p))"
    by (auto simp: list_all2_conv_all_nth in_set_conv_nth)
  then show ?thesis using m by (rule slices_of_segment_start)
qed

lemma parse_by_day_Inr:
  assumes "parse_by_day f r segs incl = Inr out"
  obtains kss where "collect_slices f r incl (enumerate 0 segs) = Inr kss" "out = grouped kss"
  using assms unfolding parse_by_day_def parse_enumerated_eq ebind_Inr_iff by auto

lemma grouped_keys: "map fst (grouped kss) = sort (remdups (map fst kss))"
  by (simp add: grouped_def comp_def)

lemma grouped_mem:
  "(d, b) \<in> set (grouped kss) \<Longrightarrow> d \<in> fst ` set kss \<and> b = sort_key startTime (bucket d kss)"
  by (auto simp: grouped_def)

lemma bucket_set: "set (bucket d kss) = snd ` {ks \<in> set kss. fst ks = d}"
  by (auto simp: bucket_def)

lemma dt_isoformat_prefix:
  "take (length (date_isoformat (dt_date a)) + 1) (dt_isoformat a)
     = date_isoformat (dt_date a) @ ''T''"
  by (simp add: dt_isoformat_def)

section \<open>The run on the two sample segments\<close>

lemma sample_parse:
  "parse_iso8601 sample_fromisoformat (JStr ''2024-01-01T23:30:00Z'')
     = Inr jan1_2330"
  "parse_iso8601 sample_fromisoformat (JStr ''2024-01-02T00:30:00Z'')
     = Inr jan2_0030"
  "parse_iso8601 sample_fromisoformat (JStr ''2024-01-01T10:00:00Z'')
     = Inr jan1_1000"
  "parse_iso8601 sample_fromisoformat (JStr ''2024-01-01T11:00:00Z'')
     = Inr jan1_1100"
  by (simp_all add: parse_iso8601_def endswith_Z_def sample_fromisoformat_def)

lemma sample_split:
  "split_segment_by_day jan1_2330
     jan2_0030
   = ([(jan1_2330, jan2_0000),
       (jan2_0000, jan2_0030)], None)"
  "split_segment_by_day jan1_1000
     jan1_1100
   = ([(jan1_1000, jan1_1100)], None)"
  by (simp_all add: split_eval datetime_eval)

lemma sample_round2_eval:
  "sample_round2 30 = 30" "sample_round2 60 = 60"
  by (simp_all add: sample_round2_def)

lemma sample_make_slice:
  "make_slice sample_round2 i st et dets
     (jan1_2330, jan2_0000)
   = Inr (''2024-01-01'',
       \<lparr>segmentIndex = i, startTime = ''2024-01-01T23:30:00+00:00'',
        endTime = ''2024-01-02T00:00:00+00:00'', durationMinutes = 30,
        originalStartTime = st, originalEndTime = et, details = dets\<rparr>)"
  "make_slice sample_round2 i st et dets
     (jan2_0000, jan2_0030)
   = Inr (''2024-01-02'',
       \<lparr>segmentIndex = i, startTime = ''2024-01-02T00:00:00+00:00'',
        endTime = ''2024-01-02T00:30:00+00:00'', durationMinutes = 30,
        originalStartTime = st, originalEndTime = et, details = dets\<rparr>)"
  "make_slice sample_round2 i st et dets
     (jan1_1000, jan1_1100)
   = Inr (''2024-01-01'',
       \<lparr>segmentIndex = i, startTime = ''2024-01-01T10:00:00+00:00'',
        endTime = ''2024-01-01T11:00:00+00:00'', durationMinutes = 60,
        originalStartTime = st, originalEndTime = et, details = dets\<rparr>)"
  by (simp_all add: make_slice_def datetime_eval isoformat_eval duration_minutes_def
        total_seconds_def sample_round2_eval)

lemma sample_collect:
  "collect_slices sample_fromisoformat sample_round2 False
     (enumerate 0 [sample_activity, sample_visit]) = Inr sample_slices"
  by (simp add: slices_of_segment_def sample_activity_def sample_visit_def segment_of_def
        py_getitem_def sample_parse sample_split sample_make_slice
        build_segment_details_def has_key_def dict_get_def
        sample_slices_def mk_slice_def activity_details_def visit_details_def)

lemma sample_grouped: "grouped sample_slices = sample_output"
  by (simp add: grouped_def bucket_def sample_slices_def sample_output_def mk_slice_def)

lemma sample_run:
  "parse_by_day sample_fromisoformat sample_round2 [sample_activity, sample_visit] False
     = Inr sample_output"
  by (simp add: parse_by_day_def parse_enumerated_eq sample_collect sample_grouped
        del: enumerate_simps)

section \<open>Buckets and their dates\<close>

text \<open>
  Claim C10. In the result of \<^verbatim>\<open>parse_by_day\<close>, the bucket of every day key \<open>d\<close> is
  not empty, and every slice in it was made for a pair that starts at an instant \<open>a\<close>
  whose date renders as \<open>d\<close>: its \<^verbatim>\<open>startTime\<close> is the rendering of \<open>a\<close>, which begins
  with \<open>d\<close> followed by \<open>T\<close>.
\<close>

theorem bucket_dates:
  assumes "parse_by_day fromisoformat round2 segments include_timeline_points = Inr out"
    and "(d, b) \<in> set out"
  shows "b \<noteq> [] \<and>
     (\<forall>s \<in> set b. take (length d + 1) (startTime s) = d @ ''T'' \<and>
        (\<exists>a. startTime s = dt_isoformat a \<and> date_isoformat (dt_date a) = d))"
proof -
  from assms(1) obtain kss where
    c: "collect_slices fromisoformat round2 include_timeline_points (enumerate 0 segments)
          = Inr kss"
    and out: "out = grouped kss"
    by (rule parse_by_day_Inr)
  from assms(2) out have d: "d \<in> fst ` set kss" and b: "b = sort_key startTime (bucket d kss)"
    using grouped_mem by blast+
  from d have "set (bucket d kss) \<noteq> {}" unfolding bucket_set by auto
  then have ne: "b \<noteq> []" unfolding b by (metis set_empty set_sort)
  have "take (length d + 1) (startTime s) = d @ ''T'' \<and>
        (\<exists>a. startTime s = dt_isoformat a \<and> date_isoformat (dt_date a) = d)"
    if "s \<in> set b" for s
  proof -
    from that b obtain ks where ks: "ks \<in> set kss" "fst ks = d" "snd ks = s"
      by (auto simp: bucket_set)
    from collect_slices_start [OF c ks(1)] obtain a where "slice_of_start ks a" ..
    with ks have "startTime s = dt_isoformat a" "date_isoformat (dt_date a) = d"
      by (simp_all add: slice_of_start_def)
    with dt_isoformat_prefix [of a] show ?thesis by auto
  qed
  with ne show ?thesis by blast
qed

theorem bucket_dates_witness:
  "parse_by_day sample_fromisoformat sample_round2 [sample_activity, sample_visit] False
     = Inr sample_output
   \<and> (''2024-01-02'',
        [mk_slice 0 ''2024-01-02T00:00:00+00:00'' ''2024-01-02T00:30:00+00:00'' 30
          ''2024-01-01T23:30:00Z'' ''2024-01-02T00:30:00Z'' activity_details])
       \<in> set sample_output
   \<and> take 11 ''2024-01-02T00:00:00+00:00'' = ''2024-01-02T''"
proof -
  let ?b = "[mk_slice 0 ''2024-01-02T00:00:00+00:00'' ''2024-01-02T00:30:00+00:00'' 30
          ''2024-01-01T23:30:00Z'' ''2024-01-02T00:30:00Z'' activity_details]"
  have m: "(''2024-01-02'', ?b) \<in> set sample_output"
    by (simp add: sample_output_def)
  from bucket_dates [OF sample_run m] sample_run m show ?thesis
    by (simp add: mk_slice_def)
qed

section \<open>The counts of the output document\<close>

lemma main_Inr:
  assumes "main f r path incl data = Inr doc"
  obtains segments grouped where
    "py_get data ''semanticSegments'' (JList []) = Inr (JList segments)"
    "parse_by_day f r segments incl = Inr grouped"
    "doc = \<lparr>sourceFile = path, dayCount = length grouped,
            segmentCount = length segments, days_of = grouped\<rparr>"
proof -
  from assms obtain segs where g: "py_get data ''semanticSegments'' (JList []) = Inr segs"
    and rest: "(case segs of
        JList segments \<Rightarrow>
          ebind (parse_by_day f r segments incl)
            (\<lambda>grouped.
          Inr \<lparr>sourceFile = path,
               dayCount = length grouped,
               segmentCount = length segments,
               days_of = grouped\<rparr>)
      | _ \<Rightarrow> Inl (ValueError ''Invalid file format: 'semanticSegments' must be a list.''))
      = Inr doc"
    unfolding main_def ebind_Inr_iff by blast
  from rest obtain segments where s: "segs = JList segments"
    by (cases segs) simp_all
  with rest obtain grouped where "parse_by_day f r segments incl = Inr grouped"
    "doc = \<lparr>sourceFile = path, dayCount = length grouped,
            segmentCount = length segments, days_of = grouped\<rparr>"
    by (auto simp: ebind_Inr_iff)
  with g s that show ?thesis by blast
qed

text \<open>
  Claim C9. In the output document, \<^verbatim>\<open>segmentCount\<close> is the number of input segments
  and \<^verbatim>\<open>dayCount\<close> is the number of keys of the \<^verbatim>\<open>days\<close> mapping, which are distinct
  and are the distinct day keys of the slices that partitioning produced, however many
  slices there are.
\<close>

theorem main_counts:
  assumes "main fromisoformat round2 input_path include_timeline_points data = Inr doc"
  shows "\<exists>segments kss.
     py_get data ''semanticSegments'' (JList []) = Inr (JList segments)
     \<and> parse_by_day fromisoformat round2 segments include_timeline_points = Inr (days_of doc)
     \<and> collect_slices fromisoformat round2 include_timeline_points (enumerate 0 segments)
         = Inr kss
     \<and> segmentCount doc = length segments
     \<and> dayCount doc = length (days_of doc)
     \<and> distinct (map fst (days_of doc))
     \<and> dayCount doc = card (fst ` set kss)"
proof -
  from assms obtain segments grouped' where
    g: "py_get data ''semanticSegments'' (JList []) = Inr (JList segments)"
    and p: "parse_by_day fromisoformat round2 segments include_timeline_points = Inr grouped'"
    and doc: "doc = \<lparr>sourceFile = input_path, dayCount = length grouped',
            segmentCount = length segments, days_of = grouped'\<rparr>"
    by (rule main_Inr)
  from p obtain kss where
    c: "collect_slices fromisoformat round2 include_timeline_points (enumerate 0 segments)
          = Inr kss"
    and out: "grouped' = grouped kss"
    by (rule parse_by_day_Inr)
  have keys: "map fst grouped' = sort (remdups (map fst kss))"
    unfolding out by (rule grouped_keys)
  then have d: "distinct (map fst grouped')" by simp
  have "length grouped' = length (map fst grouped')" by simp
  also have "\<dots> = card (set (map fst grouped'))"
    using d by (simp only: distinct_card)
  also have "set (map fst grouped') = fst ` set kss"
    unfolding keys by simp
  finally have "length grouped' = card (fst ` set kss)" .
  with g p c d doc show ?thesis by auto
qed

theorem main_counts_witness:
  "main sample_fromisoformat sample_round2 ''timeline.json'' False
     (JDict [(''semanticSegments'', JList [sample_activity, sample_visit])])
     = Inr \<lparr>sourceFile = ''timeline.json'', dayCount = 2, segmentCount = 2,
            days_of = sample_output\<rparr>
   \<and> length sample_slices = 3"
proof -
  have m: "main sample_fromisoformat sample_round2 ''timeline.json'' False
     (JDict [(''semanticSegments'', JList [sample_activity, sample_visit])])
     = Inr \<lparr>sourceFile = ''timeline.json'', dayCount = 2, segmentCount = 2,
            days_of = sample_output\<rparr>"
    by (simp add: main_def dict_get_def sample_run) (simp add: sample_output_def)
  from main_counts [OF m] m show ?thesis by (simp add: sample_slices_def)
qed

section \<open>Missing time fields\<close>

lemma collect_slices_append:
  "collect_slices f r incl (ps @ qs)
     = ebind (collect_slices f r incl ps) (\<lambda>a.
       ebind (collect_slices f r incl qs) (\<lambda>b. Inr (a @ b)))"
proof (induction ps)
  case Nil
  show ?case by (cases "collect_slices f r incl qs") simp_all
next
  case (Cons p ps)
  show ?case
    by (cases "slices_of_segment f r incl p"; cases "collect_slices f r incl ps";
        cases "collect_slices f r incl qs") (simp_all add: Cons)
qed

lemma enumerate_split:
  assumes "i < length xs"
  shows "enumerate 0 xs
     = enumerate 0 (take i xs) @ (i, xs ! i) # enumerate (Suc i) (drop (Suc i) xs)"
proof -
  have "xs = take i xs @ xs ! i # drop (Suc i) xs"
    using assms by (simp add: id_take_nth_drop)
  then have "enumerate 0 xs = enumerate 0 (take i xs @ xs ! i # drop (Suc i) xs)" by simp
  also have "\<dots> = enumerate 0 (take i xs) @ (i, xs ! i) # enumerate (Suc i) (drop (Suc i) xs)"
    using assms by (simp add: enumerate_append_eq)
  finally show ?thesis .
qed

text \<open>
  Claim C8, as the code has it. If some segment is a dict without \<^verbatim>\<open>startTime\<close> or
  without \<^verbatim>\<open>endTime\<close>, \<^verbatim>\<open>parse_by_day\<close> raises and returns nothing. The exception is
  the first one met in input order: when the segments before the deficient one are
  processed without error, it is \<^verbatim>\<open>KeyError('startTime')\<close> if \<^verbatim>\<open>startTime\<close> is missing,
  and \<^verbatim>\<open>KeyError('endTime')\<close> if \<^verbatim>\<open>startTime\<close> is present and parses. The exception
  names the missing key, not the segment.
\<close>

theorem missing_time_field:
  assumes "i < length segments" "segments ! i = JDict d"
    and "\<not> has_key d ''startTime'' \<or> \<not> has_key d ''endTime''"
  shows "(\<exists>e. parse_by_day fromisoformat round2 segments incl = Inl e)
     \<and> (\<forall>out. parse_by_day fromisoformat round2 (take i segments) incl = Inr out \<longrightarrow>
          (\<not> has_key d ''startTime'' \<longrightarrow>
             parse_by_day fromisoformat round2 segments incl = Inl (KeyError ''startTime''))
        \<and> (\<forall>st start. map_of d ''startTime'' = Some st
                \<and> parse_iso8601 fromisoformat st = Inr start \<longrightarrow>
             parse_by_day fromisoformat round2 segments incl = Inl (KeyError ''endTime'')))"
proof -
  let ?S = "slices_of_segment fromisoformat round2 incl (i, JDict d)"
  let ?pre = "collect_slices fromisoformat round2 incl (enumerate 0 (take i segments))"
  let ?post = "collect_slices fromisoformat round2 incl
                 (enumerate (Suc i) (drop (Suc i) segments))"
  have run: "parse_by_day fromisoformat round2 segments incl
      = ebind ?pre (\<lambda>a. ebind (ebind ?S (\<lambda>b. ebind ?post (\<lambda>c. Inr (b @ c))))
           (\<lambda>bc. Inr (grouped (a @ bc))))"
    unfolding parse_by_day_def parse_enumerated_eq enumerate_split [OF assms(1)]
      collect_slices_append assms(2)
    by (cases ?pre) (simp_all add: ebind_assoc)
  have first: "?S = Inl (KeyError ''startTime'')" if "\<not> has_key d ''startTime''"
    using that by (simp add: slices_of_segment_def py_getitem_def has_key_def)
  have second: "?S = Inl (KeyError ''endTime'')"
    if "map_of d ''startTime'' = Some st" "parse_iso8601 fromisoformat st = Inr start" for st start
  proof -
    from that(1) assms(3) have "map_of d ''endTime'' = None" by (simp add: has_key_def)
    with that show ?thesis by (simp add: slices_of_segment_def py_getitem_def)
  qed
  have fails: "\<exists>e. ?S = Inl e"
  proof (cases "map_of d ''startTime''")
    case None
    then show ?thesis using first by (simp add: has_key_def)
  next
    case (Some st)
    show ?thesis
    proof (cases "parse_iso8601 fromisoformat st")
      case (Inl e)
      with Some show ?thesis by (simp add: slices_of_segment_def py_getitem_def)
    next
      case (Inr start)
      with Some second show ?thesis by blast
    qed
  qed
  then obtain e where e: "?S = Inl e" ..
  have a: "\<exists>e. parse_by_day fromisoformat round2 segments incl = Inl e"
    unfolding run e by (cases ?pre) simp_all
  have b: "parse_by_day fromisoformat round2 segments incl = Inl e'"
    if "parse_by_day fromisoformat round2 (take i segments) incl = Inr out" "?S = Inl e'"
    for out e'
  proof -
    from that(1) obtain kss where "?pre = Inr kss" by (rule parse_by_day_Inr)
    then show ?thesis unfolding run that(2) by simp
  qed
  from a b first second show ?thesis by metis
qed

theorem missing_time_field_witness:
  "parse_by_day sample_fromisoformat sample_round2 [sample_activity, sample_visit] False
     = Inr sample_output
   \<and> \<not> has_key [(''endTime'', JStr ''2024-01-02T00:30:00Z'')] ''startTime''
   \<and> parse_by_day sample_fromisoformat sample_round2
       [sample_activity, sample_visit, JDict [(''endTime'', JStr ''2024-01-02T00:30:00Z'')]]
       False
     = Inl (KeyError ''startTime'')"
proof -
  let ?d = "[(''endTime'', JStr ''2024-01-02T00:30:00Z'')]"
  let ?segs = "[sample_activity, sample_visit, JDict ?d]"
  have i: "2 < length ?segs" "?segs ! 2 = JDict ?d" by simp_all
  have k: "\<not> has_key ?d ''startTime''" by (simp add: has_key_def)
  then have k': "\<not> has_key ?d ''startTime'' \<or> \<not> has_key ?d ''endTime''" by simp
  have t: "take 2 ?segs = [sample_activity, sample_visit]" by simp
  from missing_time_field [OF i k', of sample_fromisoformat sample_round2 False]
    sample_run k
  show ?thesis unfolding t by simp
qed

text \<open>
  Claim C8 as stated fails when another exception comes first: for a segment with a
  malformed \<^verbatim>\<open>startTime\<close> and no \<^verbatim>\<open>endTime\<close>, the \<^verbatim>\<open>ValueError\<close> of the parser is
  raised before \<^verbatim>\<open>endTime\<close> is looked up.
\<close>

theorem missing_time_field_counterexample:
  "\<not> has_key [(''startTime'', JStr ''yesterday'')] ''endTime''
   \<and> parse_by_day sample_fromisoformat sample_round2
        [JDict [(''startTime'', JStr ''yesterday'')]] False
      = Inl (ValueError ''Invalid isoformat string'')"
  by (simp add: has_key_def parse_by_day_def parse_enumerated_def process_segment_def
        py_getitem_def parse_iso8601_def endswith_Z_def sample_fromisoformat_def)

section \<open>The order of rendered dates\<close>

lemma days_in_month_le: "days_in_month y m \<le> 31"
  by (simp add: days_in_month_def)

lemma digit_char_less:
  assumes "n < m" "m < 10"
  shows "digit_char n < digit_char m"
proof -
  have c: "k < 10 \<Longrightarrow> k = 0 \<or> k = 1 \<or> k = 2 \<or> k = 3 \<or> k = 4 \<or> k = 5 \<or> k = 6 \<or> k = 7
             \<or> k = 8 \<or> k = 9" for k :: nat
    by arith
  have v: "k < 10 \<Longrightarrow> of_char (digit_char k) = 48 + k" for k :: nat
    using c [of k] by (auto simp: digit_char_def)
  from assms have "n < 10" by simp
  with assms show ?thesis
    by (simp add: less_char_def v)
qed

lemma digit_char_0: "digit_char 0 = CHR ''0''"
  by (simp add: digit_char_def)

lemma length_fixed_digits [simp]: "length (fixed_digits w n) = w"
  by (induction w arbitrary: n) simp_all

lemma fixed_digits_0: "fixed_digits w 0 = replicate w (CHR ''0'')"
  by (induction w) (simp_all add: digit_char_0 replicate_append_same)

lemma length_dec: "n < 10 ^ Suc w \<Longrightarrow> length (dec n) \<le> Suc w"
proof (induction w arbitrary: n)
  case 0
  then show ?case by (simp add: dec.simps [of n])
next
  case (Suc w)
  show ?case
  proof (cases "n < 10")
    case True
    then show ?thesis by (simp add: dec.simps [of n])
  next
    case False
    from Suc.prems have "n div 10 < 10 ^ Suc w" by (simp add: less_mult_imp_div_less)
    with Suc.IH have "length (dec (n div 10)) \<le> Suc w" by blast
    with False show ?thesis by (simp add: dec.simps [of n])
  qed
qed

lemma zpad_fixed: "n < 10 ^ Suc w \<Longrightarrow> zpad (Suc w) n = fixed_digits (Suc w) n"
proof (induction w arbitrary: n)
  case 0
  then show ?case by (simp add: zpad_def dec.simps [of n])
next
  case (Suc w)
  show ?case
  proof (cases "n < 10")
    case True
    then show ?thesis
      by (simp add: zpad_def dec.simps [of n] fixed_digits_0 replicate_append_same)
  next
    case False
    from Suc.prems have lt: "n div 10 < 10 ^ Suc w" by (simp add: less_mult_imp_div_less)
    from length_dec [OF lt] have len: "length (dec (n div 10)) \<le> Suc w" .
    have "zpad (Suc (Suc w)) n = zpad (Suc w) (n div 10) @ [digit_char (n mod 10)]"
      using False len by (simp add: zpad_def dec.simps [of n] Suc_diff_le)
    also have "zpad (Suc w) (n div 10) = fixed_digits (Suc w) (n div 10)"
      using lt by (rule Suc.IH)
    finally show ?thesis by simp
  qed
qed

lemma append_less_iff:
  "length a = length b \<Longrightarrow> (a @ x < b @ y) = (a < b \<or> a = b \<and> x < (y :: 'a :: linorder list))"
  by (induction a b rule: list_induct2) auto

lemma fixed_digits_mono:
  "n < m \<Longrightarrow> m < 10 ^ w \<Longrightarrow> fixed_digits w n < fixed_digits w m"
proof (induction w arbitrary: n m)
  case 0
  then show ?case by simp
next
  case (Suc w)
  from Suc.prems have m: "m div 10 < 10 ^ w" by (simp add: less_mult_imp_div_less)
  have "n div 10 \<le> m div 10" using Suc.prems(1) by (simp add: div_le_mono)
  then consider (lt) "n div 10 < m div 10" | (eq) "n div 10 = m div 10" by linarith
  then show ?case
  proof cases
    case lt
    then have "fixed_digits w (n div 10) < fixed_digits w (m div 10)"
      using m by (rule Suc.IH)
    then show ?thesis by (simp add: append_less_iff)
  next
    case eq
    have "n mod 10 < m mod 10"
    proof -
      have "n = 10 * (n div 10) + n mod 10" "m = 10 * (m div 10) + m mod 10" by simp_all
      with eq Suc.prems(1) show ?thesis by linarith
    qed
    then have "digit_char (n mod 10) < digit_char (m mod 10)"
      by (rule digit_char_less) simp
    with eq show ?thesis by (simp add: append_less_iff)
  qed
qed

lemma zpad4:
  assumes "n < 10000"
  shows "zpad 4 n = fixed_digits 4 n"
proof -
  have e: "(4::nat) = Suc 3" by simp
  have "n < 10 ^ Suc 3" using assms by simp
  then have "zpad (Suc 3) n = fixed_digits (Suc 3) n" by (rule zpad_fixed)
  then show ?thesis unfolding e .
qed

lemma zpad2:
  assumes "n < 100"
  shows "zpad 2 n = fixed_digits 2 n"
proof -
  have e: "(2::nat) = Suc 1" by simp
  have "n < 10 ^ Suc 1" using assms by simp
  then have "zpad (Suc 1) n = fixed_digits (Suc 1) n" by (rule zpad_fixed)
  then show ?thesis unfolding e .
qed

lemma date_isoformat_fixed:
  assumes "valid_date d"
  shows "date_isoformat d
     = fixed_digits 4 (year d) @ ''-'' @ fixed_digits 2 (month d) @ ''-''
         @ fixed_digits 2 (day d)"
proof -
  have "day d \<le> 31" using assms days_in_month_le [of "year d" "month d"]
    by (simp add: valid_date_def)
  with assms show ?thesis
    by (simp add: date_isoformat_def valid_date_def MAXYEAR_def zpad4 zpad2)
qed

lemma date_isoformat_mono:
  assumes "valid_date a" "valid_date b" "date_lt a b"
  shows "date_isoformat a < date_isoformat b"
proof -
  have b: "year b < 10 ^ 4" "month b < 10 ^ 2" "day b < 10 ^ 2"
    using assms(2) days_in_month_le [of "year b" "month b"]
    by (simp_all add: valid_date_def MAXYEAR_def)
  have y: "year a < year b \<Longrightarrow> fixed_digits 4 (year a) < fixed_digits 4 (year b)"
    by (rule fixed_digits_mono [OF _ b(1)])
  have m: "month a < month b \<Longrightarrow> fixed_digits 2 (month a) < fixed_digits 2 (month b)"
    by (rule fixed_digits_mono [OF _ b(2)])
  have d: "day a < day b \<Longrightarrow> fixed_digits 2 (day a) < fixed_digits 2 (day b)"
    by (rule fixed_digits_mono [OF _ b(3)])
  from assms(3) y m d show ?thesis
    unfolding date_isoformat_fixed [OF assms(1)] date_isoformat_fixed [OF assms(2)] date_lt_def
    by (auto simp: append_less_iff)
qed

lemma date_isoformat_reflect:
  assumes "valid_date a" "valid_date b" "date_isoformat a < date_isoformat b"
  shows "date_lt a b"
proof (rule ccontr)
  assume n: "\<not> date_lt a b"
  show False
  proof (cases "date_lt b a")
    case True
    from date_isoformat_mono [OF assms(2,1) True] assms(3) show False by simp
  next
    case False
    with n have "a = b" by (rule date_trichotomy)
    with assms(3) show False by simp
  qed
qed

lemma length_date_isoformat: "valid_date d \<Longrightarrow> length (date_isoformat d) = 10"
  by (simp add: date_isoformat_fixed)

section \<open>The order of the result\<close>

lemma split_loop_starts_valid:
  assumes "valid_datetime c" "valid_datetime e"
  shows "list_all (\<lambda>iv. valid_datetime (fst iv)) (fst (split_loop c e))"
  using assms
proof (induction c e rule: split_loop.induct)
  case (1 c e)
  show ?case
  proof (cases "date_lt (dt_date c) (dt_date e)")
    case False
    with "1.prems" show ?thesis by (simp add: split_loop_unfold_ge)
  next
    case True
    have vc: "valid_date (dt_date c)" and ve: "valid_date (dt_date e)"
      using "1.prems" by (simp_all add: valid_datetime_def)
    from date_add_day_valid [OF vc ve True]
    obtain d where add: "date_add_day (dt_date c) = Inr d" and vd: "valid_date d"
      by blast
    let ?nm = "combine d time_min (tzinfo c)"
    have vnm: "valid_datetime ?nm"
      using vd "1.prems"(1)
      by (simp add: valid_datetime_def combine_def time_min_def valid_time_def)
    from "1.IH" [OF True add refl vnm "1.prems"(2)] "1.prems"(1)
    show ?thesis
      unfolding split_loop_unfold_lt [OF True add] by simp
  qed
qed

lemma split_starts_valid:
  assumes "valid_datetime start" "valid_datetime end"
    "split_segment_by_day start end = (ivs, err)" "iv \<in> set ivs"
  shows "valid_datetime (fst iv)"
proof -
  have "list_all (\<lambda>iv. valid_datetime (fst iv)) ivs"
  proof (cases "dt_lt end start")
    case (Inl e)
    with assms(3) show ?thesis by (simp add: split_segment_by_day_def)
  next
    case (Inr b)
    show ?thesis
    proof (cases "b \<or> dt_eq end start")
      case True
      with Inr assms(1,3) show ?thesis
        by (cases b) (auto simp: split_segment_by_day_def split: if_splits)
    next
      case False
      with Inr assms(3) have "split_loop start end = (ivs, err)"
        by (simp add: split_segment_by_day_def)
      with split_loop_starts_valid [OF assms(1,2)] show ?thesis by simp
    qed
  qed
  with assms(4) show ?thesis by (simp add: list_all_iff)
qed

lemma parse_iso8601_valid:
  "valid_parser f \<Longrightarrow> parse_iso8601 f v = Inr dt \<Longrightarrow> valid_datetime dt"
  by (auto simp: valid_parser_def parse_iso8601_def split: json.splits)

lemma slices_of_segment_valid:
  assumes "valid_parser f" "slices_of_segment f r incl p = Inr kss" "ks \<in> set kss"
  shows "\<exists>d. valid_date d \<and> fst ks = date_isoformat d"
proof -
  obtain i seg where p: "p = (i, seg)" by (cases p)
  from assms(2) [unfolded p] obtain st et start en dets ivs where
    ps: "parse_iso8601 f st = Inr start" "parse_iso8601 f et = Inr en"
    and sp: "split_segment_by_day start en = (ivs, None)"
    and l: "list_all2 (\<lambda>iv ks. make_slice r i st et dets iv = Inr ks) ivs kss"
    by (rule slices_of_segment_Inr)
  from assms(3) obtain n where n: "n < length kss" "ks = kss ! n"
    by (auto simp: in_set_conv_nth)
  with l have m: "make_slice r i st et dets (ivs ! n) = Inr ks" and "n < length ivs"
    by (simp_all add: list_all2_conv_all_nth)
  then have "ivs ! n \<in> set ivs" by simp
  with ps sp assms(1) have "valid_datetime (fst (ivs ! n))"
    using split_starts_valid parse_iso8601_valid by blast
  with make_slice_Inr(1) [OF m] show ?thesis by (auto simp: valid_datetime_def)
qed

lemma collect_slices_valid:
  assumes "valid_parser f" "collect_slices f r incl ps = Inr kss" "ks \<in> set kss"
  shows "\<exists>d. valid_date d \<and> fst ks = date_isoformat d"
proof -
  from collect_slices_Inr [OF assms(2)] assms(3)
  obtain p where p: "p \<in> set ps" and m: "ks \<in> set (projr (slices_of_segment f r incl p))"
    and l: "list_all2 (\<lambda>p a. slices_of_segment f r incl p = Inr a) ps
        (map (\<lambda>p. projr (slices_of_segment f r incl p)) ps)"
    by auto
  from p l have "slices_of_segment f r incl p = Inr (projr (slices_of_segment f r incl p))"
    by (auto simp: list_all2_conv_all_nth in_set_conv_nth)
  with assms(1) show ?thesis using m by (rule slices_of_segment_valid)
qed

lemma sample_parser_valid: "valid_parser sample_fromisoformat"
  unfolding valid_parser_def sample_fromisoformat_def
  by (auto simp: datetime_eval split: if_splits)

text \<open>
  Claim C3. In the result of \<^verbatim>\<open>parse_by_day\<close> the day keys are strictly ascending as
  strings, and within every bucket the slices are ascending in their \<^verbatim>\<open>startTime\<close>
  text, compared as strings. When \<^verbatim>\<open>fromisoformat\<close> returns valid datetimes only, the
  keys are the renderings of valid dates that are strictly ascending as dates.
\<close>

theorem result_order:
  assumes "parse_by_day fromisoformat round2 segments include_timeline_points = Inr out"
  shows "sorted_wrt (<) (map fst out)
     \<and> (\<forall>(d, b) \<in> set out. sorted (map startTime b))
     \<and> (valid_parser fromisoformat \<longrightarrow>
          (\<exists>ds. map fst out = map date_isoformat ds \<and> list_all valid_date ds
                \<and> sorted_wrt date_lt ds))"
proof -
  from assms obtain kss where
    c: "collect_slices fromisoformat round2 include_timeline_points (enumerate 0 segments)
          = Inr kss"
    and out: "out = grouped kss"
    by (rule parse_by_day_Inr)
  have keys: "map fst out = sort (remdups (map fst kss))"
    unfolding out by (rule grouped_keys)
  have strict: "sorted_wrt (<) (map fst out)"
    unfolding keys by (simp add: strict_sorted_iff)
  have buckets: "sorted (map startTime b)" if "(d, b) \<in> set out" for d b
    using that grouped_mem [of d b kss] unfolding out by simp
  have dates: "\<exists>ds. map fst out = map date_isoformat ds \<and> list_all valid_date ds
                \<and> sorted_wrt date_lt ds"
    if vp: "valid_parser fromisoformat"
  proof -
    define pick where "pick k = (SOME d. valid_date d \<and> k = date_isoformat d)" for k
    have pick: "valid_date (pick k) \<and> k = date_isoformat (pick k)" if "k \<in> set (map fst out)" for k
    proof -
      from that have "k \<in> fst ` set kss" unfolding keys by simp
      then obtain ks where "ks \<in> set kss" "fst ks = k" by auto
      with collect_slices_valid [OF vp c] have "\<exists>d. valid_date d \<and> k = date_isoformat d"
        by blast
      then show ?thesis unfolding pick_def by (rule someI_ex)
    qed
    define keys where "keys = map fst out"
    let ?ds = "map pick keys"
    have "map date_isoformat ?ds = keys"
      using pick unfolding keys_def by (simp add: map_idI)
    moreover have "list_all valid_date ?ds"
      using pick unfolding keys_def by (simp add: list_all_iff)
    moreover have "sorted_wrt date_lt ?ds"
      unfolding sorted_wrt_map
    proof (rule sorted_wrt_mono_rel)
      show "sorted_wrt (<) keys" using strict unfolding keys_def .
    next
      fix x y
      assume "x \<in> set keys" "y \<in> set keys" "x < y"
      with pick [of x] pick [of y] show "date_lt (pick x) (pick y)"
        unfolding keys_def using date_isoformat_reflect by metis
    qed
    ultimately show ?thesis unfolding keys_def by metis
  qed
  from strict buckets dates show ?thesis by blast
qed

theorem result_order_witness:
  "parse_by_day sample_fromisoformat sample_round2 [sample_activity, sample_visit] False
     = Inr sample_output
   \<and> valid_parser sample_fromisoformat
   \<and> map fst sample_output = [''2024-01-01'', ''2024-01-02'']
   \<and> sorted_wrt (<) (map fst sample_output)"
proof -
  have k: "map fst sample_output = [''2024-01-01'', ''2024-01-02'']"
    by (simp add: sample_output_def)
  from result_order [OF sample_run] sample_run sample_parser_valid k
  show ?thesis by simp
qed

section \<open>The order of processing\<close>

lemma collect_slices_Inl_iff:
  "(\<exists>e. collect_slices f r incl ps = Inl e)
     = (\<exists>p \<in> set ps. \<exists>e. slices_of_segment f r incl p = Inl e)"
proof (induction ps)
  case Nil
  show ?case by simp
next
  case (Cons p ps)
  show ?case
  proof (cases "slices_of_segment f r incl p")
    case (Inl e)
    then show ?thesis by simp
  next
    case (Inr a)
    show ?thesis
    proof (cases "collect_slices f r incl ps")
      case (Inl e)
      with Inr Cons show ?thesis by auto
    next
      case r: (Inr b)
      with Inr Cons show ?thesis by auto
    qed
  qed
qed

lemma collect_slices_mset:
  assumes "collect_slices f r incl ps = Inr kss"
  shows "mset kss = (\<Sum>p \<in># mset ps. mset (projr (slices_of_segment f r incl p)))"
proof -
  from collect_slices_Inr [OF assms]
  have "kss = concat (map (\<lambda>p. projr (slices_of_segment f r incl p)) ps)" by simp
  then have "mset kss = (\<Sum>xs\<leftarrow>map (\<lambda>p. projr (slices_of_segment f r incl p)) ps. mset xs)"
    by (simp only: mset_concat)
  also have "\<dots> = sum_list (map (\<lambda>p. mset (projr (slices_of_segment f r incl p))) ps)"
    by (simp add: comp_def)
  also have "\<dots> = (\<Sum>p \<in># mset ps. mset (projr (slices_of_segment f r incl p)))"
    by (simp only: sum_mset_sum_list [symmetric] mset_map)
  finally show ?thesis .
qed

lemma collect_slices_perm:
  assumes "mset ps = mset qs"
  shows "(\<exists>e. collect_slices f r incl ps = Inl e) = (\<exists>e. collect_slices f r incl qs = Inl e)"
    and "collect_slices f r incl qs = Inr kss \<Longrightarrow>
           \<exists>kss'. collect_slices f r incl ps = Inr kss' \<and> mset kss' = mset kss"
proof -
  from assms have s: "set ps = set qs" by (rule mset_eq_setD)
  show iff: "(\<exists>e. collect_slices f r incl ps = Inl e) = (\<exists>e. collect_slices f r incl qs = Inl e)"
    unfolding collect_slices_Inl_iff s ..
  assume q: "collect_slices f r incl qs = Inr kss"
  with iff obtain kss' where p: "collect_slices f r incl ps = Inr kss'"
    by (cases "collect_slices f r incl ps") auto
  from collect_slices_mset [OF p] collect_slices_mset [OF q] assms
  have "mset kss' = mset kss" by simp
  with p show "\<exists>kss'. collect_slices f r incl ps = Inr kss' \<and> mset kss' = mset kss" by blast
qed

lemma filter_same_key:
  "distinct (map f zs) \<Longrightarrow> k \<in> set zs \<Longrightarrow> filter (\<lambda>x. f k = f x) zs = [k]"
proof (induction zs)
  case Nil
  then show ?case by simp
next
  case (Cons z zs)
  show ?case
  proof (cases "k = z")
    case True
    with Cons.prems have "filter (\<lambda>x. f k = f x) zs = []"
      by (auto simp: filter_empty_conv)
    with True show ?thesis by simp
  next
    case False
    with Cons.prems have kz: "k \<in> set zs" by simp
    from Cons.prems(1) have "f z \<notin> f ` set zs" by simp
    with kz have "f k \<noteq> f z" by (metis image_eqI)
    with kz Cons show ?thesis by simp
  qed
qed

lemma sort_key_perm:
  assumes "mset xs = mset ys" "distinct (map f ys)"
  shows "sort_key f xs = sort_key f ys"
proof (rule properties_for_sort_key)
  show "mset (sort_key f ys) = mset xs" using assms(1) by simp
  show "sorted (map f (sort_key f ys))" by simp
  fix k
  assume "k \<in> set (sort_key f ys)"
  then have k: "k \<in> set ys" by simp
  then have kx: "k \<in> set xs" using assms(1) mset_eq_setD by blast
  have "mset (map f xs) = mset (map f ys)" using assms(1) by simp
  then have dx: "distinct (map f xs)" using assms(2) mset_eq_imp_distinct_iff by blast
  have "mset (map f (sort_key f ys)) = mset (map f ys)" by simp
  then have ds: "distinct (map f (sort_key f ys))"
    using assms(2) mset_eq_imp_distinct_iff by blast
  have "k \<in> set (sort_key f ys)" using k by simp
  with ds have "filter (\<lambda>x. f k = f x) (sort_key f ys) = [k]" by (rule filter_same_key)
  moreover from dx kx have "filter (\<lambda>x. f k = f x) xs = [k]" by (rule filter_same_key)
  ultimately show "filter (\<lambda>x. f k = f x) (sort_key f ys) = filter (\<lambda>x. f k = f x) xs"
    by simp
qed

lemma bucket_mset:
  "mset kss' = mset kss \<Longrightarrow> mset (bucket k kss') = mset (bucket k kss)"
  by (simp add: bucket_def)

lemma grouped_perm:
  assumes "mset kss' = mset kss"
  shows "map fst (grouped kss') = map fst (grouped kss)"
    and "list_all2 (\<lambda>x y. fst x = fst y \<and> mset (snd x) = mset (snd y))
           (grouped kss') (grouped kss)"
    and "(\<forall>(d, b) \<in> set (grouped kss). distinct (map startTime b))
           \<Longrightarrow> grouped kss' = grouped kss"
proof -
  from assms have "set kss' = set kss" by (rule mset_eq_setD)
  then have "set (remdups (map fst kss')) = set (map fst kss)" by simp
  then have k: "sort (remdups (map fst kss')) = sort (remdups (map fst kss))"
    by (intro sort_keys_eq) simp_all
  show "map fst (grouped kss') = map fst (grouped kss)"
    unfolding grouped_keys k ..
  show "list_all2 (\<lambda>x y. fst x = fst y \<and> mset (snd x) = mset (snd y))
           (grouped kss') (grouped kss)"
    unfolding grouped_def k
    by (simp add: list_all2_map1 list_all2_map2 list_all2_same bucket_mset [OF assms])
  assume d: "\<forall>(d, b) \<in> set (grouped kss). distinct (map startTime b)"
  have "sort_key startTime (bucket k' kss') = sort_key startTime (bucket k' kss)"
    if "k' \<in> set (sort (remdups (map fst kss)))" for k'
  proof -
    from that have "(k', sort_key startTime (bucket k' kss)) \<in> set (grouped kss)"
      by (auto simp: grouped_def)
    with d have "distinct (map startTime (sort_key startTime (bucket k' kss)))" by blast
    moreover have "mset (map startTime (sort_key startTime (bucket k' kss)))
        = mset (map startTime (bucket k' kss))"
      by simp
    ultimately have "distinct (map startTime (bucket k' kss))"
      using mset_eq_imp_distinct_iff by blast
    with bucket_mset [OF assms] show ?thesis by (rule sort_key_perm)
  qed
  then show "grouped kss' = grouped kss"
    unfolding grouped_def k by simp
qed

lemma sample_visit_slices:
  "slices_of_segment sample_fromisoformat sample_round2 False (i, sample_visit)
     = Inr [(''2024-01-01'', visit_slice i)]"
  by (simp add: slices_of_segment_def sample_visit_def segment_of_def
        py_getitem_def sample_parse sample_split sample_make_slice
        build_segment_details_def has_key_def dict_get_def
        visit_slice_def mk_slice_def visit_details_def)

lemma visit_slice_start: "startTime (visit_slice i) = ''2024-01-01T10:00:00+00:00''"
  by (simp add: visit_slice_def mk_slice_def)

text \<open>
  Claim C4, as the code has it. Let the enumerated segments be processed in any order,
  each with its index in the input list. The run raises exactly when the run in input
  order raises. When the run in input order returns, the permuted run returns the same
  day keys in the same order, and for every day a bucket with the same slices up to
  their order; the two results are equal when, in every bucket, no two slices have the
  same \<^verbatim>\<open>startTime\<close> text.
\<close>

theorem order_independence:
  assumes "mset ps = mset (enumerate 0 segments)"
  shows "((\<exists>e. parse_enumerated fromisoformat round2 ps incl = Inl e)
           = (\<exists>e. parse_by_day fromisoformat round2 segments incl = Inl e))
     \<and> (\<forall>out. parse_by_day fromisoformat round2 segments incl = Inr out \<longrightarrow>
          (\<exists>out'. parse_enumerated fromisoformat round2 ps incl = Inr out'
             \<and> map fst out' = map fst out
             \<and> list_all2 (\<lambda>x y. fst x = fst y \<and> mset (snd x) = mset (snd y)) out' out
             \<and> ((\<forall>(d, b) \<in> set out. distinct (map startTime b)) \<longrightarrow> out' = out)))"
proof -
  let ?P = "collect_slices fromisoformat round2 incl ps"
  let ?Q = "collect_slices fromisoformat round2 incl (enumerate 0 segments)"
  have pe: "parse_enumerated fromisoformat round2 ps incl = ebind ?P (\<lambda>kss. Inr (grouped kss))"
    by (rule parse_enumerated_eq)
  have pd: "parse_by_day fromisoformat round2 segments incl = ebind ?Q (\<lambda>kss. Inr (grouped kss))"
    unfolding parse_by_day_def by (rule parse_enumerated_eq)
  have fail: "(\<exists>e. ebind m (\<lambda>kss. Inr (grouped kss)) = Inl e) = (\<exists>e. m = Inl e)"
    for m :: "error + (string \<times> slice) list"
    by (cases m) simp_all
  have a: "(\<exists>e. parse_enumerated fromisoformat round2 ps incl = Inl e)
           = (\<exists>e. parse_by_day fromisoformat round2 segments incl = Inl e)"
    unfolding pe pd fail using assms by (rule collect_slices_perm(1))
  have b: "\<exists>out'. parse_enumerated fromisoformat round2 ps incl = Inr out'
             \<and> map fst out' = map fst out
             \<and> list_all2 (\<lambda>x y. fst x = fst y \<and> mset (snd x) = mset (snd y)) out' out
             \<and> ((\<forall>(d, b) \<in> set out. distinct (map startTime b)) \<longrightarrow> out' = out)"
    if "parse_by_day fromisoformat round2 segments incl = Inr out" for out
  proof -
    from that obtain kss where q: "?Q = Inr kss" and out: "out = grouped kss"
      by (rule parse_by_day_Inr)
    from collect_slices_perm(2) [OF assms q] obtain kss' where p: "?P = Inr kss'"
      and m: "mset kss' = mset kss"
      by blast
    have "parse_enumerated fromisoformat round2 ps incl = Inr (grouped kss')"
      unfolding pe p by simp
    with grouped_perm [OF m] show ?thesis unfolding out by blast
  qed
  from a b show ?thesis by blast
qed

theorem order_independence_witness:
  "mset [(1, sample_visit), (0, sample_activity)]
     = mset (enumerate 0 [sample_activity, sample_visit])
   \<and> parse_by_day sample_fromisoformat sample_round2 [sample_activity, sample_visit] False
       = Inr sample_output
   \<and> parse_enumerated sample_fromisoformat sample_round2
         [(1, sample_visit), (0, sample_activity)] False
       = Inr sample_output"
proof -
  have a: "mset [(1, sample_visit), (0, sample_activity)]
     = mset (enumerate 0 [sample_activity, sample_visit])"
    by simp
  have d: "\<forall>(d, b) \<in> set sample_output. distinct (map startTime b)"
    by (simp add: sample_output_def mk_slice_def)
  from order_independence [OF a, of sample_fromisoformat sample_round2 False]
    sample_run a d
  show ?thesis by auto
qed

text \<open>
  Claim C4 as stated fails for slices with equal \<^verbatim>\<open>startTime\<close> text in one bucket:
  the sort is stable and compares nothing else, so they stay in the order of
  processing. Two equal visit segments processed in reverse order come out with their
  indices reversed.
\<close>

theorem order_independence_counterexample:
  "mset [(1, sample_visit), (0, sample_visit)] = mset (enumerate 0 [sample_visit, sample_visit])
   \<and> parse_by_day sample_fromisoformat sample_round2 [sample_visit, sample_visit] False
       = Inr [(''2024-01-01'', [visit_slice 0, visit_slice 1])]
   \<and> parse_enumerated sample_fromisoformat sample_round2
         [(1, sample_visit), (0, sample_visit)] False
       = Inr [(''2024-01-01'', [visit_slice 1, visit_slice 0])]
   \<and> visit_slice 1 \<noteq> visit_slice 0"
proof -
  have a: "mset [(1, sample_visit), (0, sample_visit)]
             = mset (enumerate 0 [sample_visit, sample_visit])"
    by simp
  have b: "parse_by_day sample_fromisoformat sample_round2 [sample_visit, sample_visit] False
       = Inr [(''2024-01-01'', [visit_slice 0, visit_slice 1])]"
    by (simp add: parse_by_day_def parse_enumerated_eq sample_visit_slices grouped_def
          bucket_def visit_slice_start)
  have c: "parse_enumerated sample_fromisoformat sample_round2
         [(1, sample_visit), (0, sample_visit)] False
       = Inr [(''2024-01-01'', [visit_slice 1, visit_slice 0])]"
    by (simp add: parse_enumerated_eq sample_visit_slices grouped_def bucket_def
          visit_slice_start)
  have d: "visit_slice 1 \<noteq> visit_slice 0"
    by (simp add: visit_slice_def mk_slice_def)
  from a b c d show ?thesis by blast
qed

section \<open>Durations\<close>

lemma split_shape:
  assumes "split_segment_by_day start end = (ivs, None)"
  shows "ivs \<noteq> [] \<and> fst (hd ivs) = start \<and> snd (last ivs) = end \<and> contiguous ivs
     \<and> dt_ge end start = Inr True"
proof (cases "dt_lt end start")
  case (Inl e)
  with assms show ?thesis by (simp add: split_segment_by_day_def)
next
  case (Inr b)
  with assms have nb: "\<not> b" by (cases b) (simp_all add: split_segment_by_day_def)
  with Inr have ge: "dt_ge end start = Inr True"
    by (auto simp: dt_lt_def dt_ge_def split: if_splits)
  show ?thesis
  proof (cases "dt_eq end start")
    case True
    with Inr nb assms ge show ?thesis by (auto simp: split_segment_by_day_def)
  next
    case False
    with Inr nb assms have "split_loop start end = (ivs, None)"
      by (simp add: split_segment_by_day_def)
    with split_loop_shape [of start "end"] ge show ?thesis by simp
  qed
qed

lemma contiguous_telescope:
  "contiguous ivs \<Longrightarrow> ivs \<noteq> [] \<Longrightarrow>
     (\<Sum>iv\<leftarrow>ivs. utc_us (snd iv) - utc_us (fst iv))
       = utc_us (snd (last ivs)) - utc_us (fst (hd ivs))"
  by (induction ivs rule: contiguous.induct) simp_all

lemma exact_minutes_sum:
  "(\<Sum>iv\<leftarrow>ivs. exact_minutes iv)
     = real_of_int (\<Sum>iv\<leftarrow>ivs. utc_us (snd iv) - utc_us (fst iv)) / 60000000"
  by (induction ivs) (simp_all add: exact_minutes_def total_seconds_def field_simps)

lemma rounded_sum:
  assumes "\<forall>x. \<bar>round2 x - x\<bar> \<le> 1 / 100"
  shows "\<bar>(\<Sum>iv\<leftarrow>ivs. round2 (exact_minutes iv)) - (\<Sum>iv\<leftarrow>ivs. exact_minutes iv)\<bar>
           \<le> real (length ivs) / 100"
proof (induction ivs)
  case Nil
  show ?case by simp
next
  case (Cons iv ivs)
  define a where "a = round2 (exact_minutes iv)"
  define c where "c = exact_minutes iv"
  define A where "A = (\<Sum>iv\<leftarrow>ivs. round2 (exact_minutes iv))"
  define C where "C = (\<Sum>iv\<leftarrow>ivs. exact_minutes iv)"
  define n where "n = real (length ivs)"
  from assms have "\<bar>a - c\<bar> \<le> 1 / 100" unfolding a_def c_def by blast
  moreover from Cons have "\<bar>A - C\<bar> \<le> n / 100" unfolding A_def C_def n_def .
  moreover have "\<bar>(a + A) - (c + C)\<bar> \<le> \<bar>a - c\<bar> + \<bar>A - C\<bar>" by linarith
  moreover have "(1 + n) / 100 = 1 / 100 + n / 100" by (simp add: add_divide_distrib)
  ultimately have "\<bar>(a + A) - (c + C)\<bar> \<le> (1 + n) / 100" by linarith
  then show ?case unfolding a_def c_def A_def C_def n_def by simp
qed

lemma make_slices_durations:
  assumes "list_all2 (\<lambda>iv ks. make_slice r i st et dets iv = Inr ks) ivs kss"
  shows "map (\<lambda>ks. durationMinutes (snd ks)) kss = map (\<lambda>iv. r (exact_minutes iv)) ivs"
    and "\<forall>ks \<in> set kss. segmentIndex (snd ks) = i"
    and "length kss = length ivs"
  using assms
proof (induction ivs kss rule: list_all2_induct)
  case Nil
  {
    case 1 show ?case by simp
  next
    case 2 show ?case by simp
  next
    case 3 show ?case by simp
  }
next
  case (Cons iv ivs ks kss)
  from make_slice_Inr(2) [OF Cons.hyps(1)]
  have d: "durationMinutes (snd ks) = r (exact_minutes iv)" and s: "segmentIndex (snd ks) = i"
    by (simp_all add: duration_minutes_def exact_minutes_def)
  {
    case 1 with d Cons.IH(1) show ?case by simp
  next
    case 2 with s Cons.IH(2) show ?case by simp
  next
    case 3 with Cons.IH(3) show ?case by simp
  }
qed

lemma sum_filter_keys_step:
  assumes "distinct keys" "fst x \<in> set keys"
  shows "(\<Sum>k\<leftarrow>keys. if fst x = k then add_mset x (F k) else F k)
           = add_mset x (\<Sum>k\<leftarrow>keys. F k)"
  using assms
proof (induction keys)
  case Nil
  then show ?case by simp
next
  case (Cons k keys)
  show ?case
  proof (cases "fst x = k")
    case True
    with Cons.prems have "fst x \<notin> set keys" by simp
    then have "(\<Sum>k\<leftarrow>keys. if fst x = k then add_mset x (F k) else F k) = (\<Sum>k\<leftarrow>keys. F k)"
      by (intro arg_cong [where f = sum_list] map_cong) auto
    with True show ?thesis by simp
  next
    case False
    with Cons show ?thesis by simp
  qed
qed

lemma sum_filter_keys:
  assumes "distinct keys"
  shows "fst ` set_mset M \<subseteq> set keys \<Longrightarrow>
           (\<Sum>k\<leftarrow>keys. filter_mset (\<lambda>x. fst x = k) M) = M"
proof (induction M)
  case empty
  show ?case by (induction keys) simp_all
next
  case (add x M)
  then have IH: "(\<Sum>k\<leftarrow>keys. filter_mset (\<lambda>x. fst x = k) M) = M"
    and x: "fst x \<in> set keys"
    by auto
  have "(\<Sum>k\<leftarrow>keys. filter_mset (\<lambda>y. fst y = k) (add_mset x M))
      = (\<Sum>k\<leftarrow>keys. if fst x = k then add_mset x (filter_mset (\<lambda>y. fst y = k) M)
                     else filter_mset (\<lambda>y. fst y = k) M)"
    by (intro arg_cong [where f = sum_list] map_cong) auto
  also have "\<dots> = add_mset x (\<Sum>k\<leftarrow>keys. filter_mset (\<lambda>y. fst y = k) M)"
    using assms x by (rule sum_filter_keys_step)
  finally show ?case using IH by simp
qed

lemma image_mset_sum_list:
  "(\<Sum>k\<leftarrow>ks. image_mset h (F k)) = image_mset h (\<Sum>k\<leftarrow>ks. F k)"
  by (induction ks) simp_all

lemma grouped_slices_mset:
  "mset (concat (map snd (grouped kss))) = mset (map snd kss)"
proof -
  let ?keys = "sort (remdups (map fst kss))"
  have "mset (concat (map snd (grouped kss)))
      = (\<Sum>k\<leftarrow>?keys. mset (bucket k kss))"
    by (simp add: grouped_def mset_concat comp_def)
  also have "\<dots> = (\<Sum>k\<leftarrow>?keys. image_mset snd (filter_mset (\<lambda>x. fst x = k) (mset kss)))"
    by (simp add: bucket_def)
  also have "\<dots> = image_mset snd (\<Sum>k\<leftarrow>?keys. filter_mset (\<lambda>x. fst x = k) (mset kss))"
    by (rule image_mset_sum_list)
  also have "(\<Sum>k\<leftarrow>?keys. filter_mset (\<lambda>x. fst x = k) (mset kss)) = mset kss"
    by (rule sum_filter_keys) simp_all
  finally show ?thesis by simp
qed

lemma filter_concat_none:
  "(\<And>xs. xs \<in> set xss \<Longrightarrow> filter P xs = []) \<Longrightarrow> filter P (concat xss) = []"
  by (induction xss) simp_all

lemma slices_of_index:
  assumes "i < length segments"
    and ok: "\<And>p. p \<in> set (enumerate 0 segments) \<Longrightarrow> \<forall>ks \<in> set (g p). segmentIndex (snd ks) = fst p"
  shows "filter (\<lambda>ks. segmentIndex (snd ks) = i) (concat (map g (enumerate 0 segments)))
           = g (i, segments ! i)"
proof -
  let ?P = "\<lambda>ks. segmentIndex (snd ks) = i"
  let ?pre = "enumerate 0 (take i segments)"
  let ?post = "enumerate (Suc i) (drop (Suc i) segments)"
  have e: "enumerate 0 segments = ?pre @ (i, segments ! i) # ?post"
    using assms(1) by (rule enumerate_split)
  have other: "filter ?P (g p) = []" if "p \<in> set (enumerate 0 segments)" "fst p \<noteq> i" for p
    using ok [OF that(1)] that(2) by (auto simp: filter_empty_conv)
  have pre: "filter ?P (concat (map g ?pre)) = []"
  proof (rule filter_concat_none)
    fix xs assume "xs \<in> set (map g ?pre)"
    then obtain p where p: "p \<in> set ?pre" "xs = g p" by auto
    then have "fst p < i" by (auto simp: in_set_enumerate_eq)
    moreover from p have "p \<in> set (enumerate 0 segments)" unfolding e by simp
    ultimately show "filter ?P xs = []" using other p by simp
  qed
  have post: "filter ?P (concat (map g ?post)) = []"
  proof (rule filter_concat_none)
    fix xs assume "xs \<in> set (map g ?post)"
    then obtain p where p: "p \<in> set ?post" "xs = g p" by auto
    then have "i < fst p" by (auto simp: in_set_enumerate_eq)
    moreover from p have "p \<in> set (enumerate 0 segments)" unfolding e by simp
    ultimately show "filter ?P xs = []" using other p by simp
  qed
  have self: "filter ?P (g (i, segments ! i)) = g (i, segments ! i)"
    using ok [of "(i, segments ! i)"] unfolding e by (simp add: filter_id_conv)
  show ?thesis unfolding e using pre post self by simp
qed

lemma sum_list_mset_cong:
  fixes f :: "'a \<Rightarrow> real"
  assumes "mset xs = mset ys"
  shows "sum_list (map f xs) = sum_list (map f ys)"
proof -
  have "sum_list (map f xs) = sum_mset (image_mset f (mset xs))"
    by (simp only: sum_mset_sum_list [symmetric] mset_map)
  also have "\<dots> = sum_mset (image_mset f (mset ys))" using assms by simp
  also have "\<dots> = sum_list (map f ys)"
    by (simp only: sum_mset_sum_list [symmetric] mset_map)
  finally show ?thesis .
qed

lemma sample_round2_accurate: "\<forall>x. \<bar>sample_round2 x - x\<bar> \<le> 1 / 100"
proof
  fix x :: real
  have "\<bar>real_of_int (round (x * 100)) - x * 100\<bar> \<le> 1 / 2"
    by (rule of_int_round_abs_le)
  then have "\<bar>real_of_int (round (x * 100)) / 100 - x\<bar> \<le> 1 / 200"
    by (simp add: field_simps abs_le_iff)
  then show "\<bar>sample_round2 x - x\<bar> \<le> 1 / 100"
    by (simp add: sample_round2_def)
qed

text \<open>
  Claim C5. \<open>round2\<close> stands for Python's rounding of a float to two decimals; the
  statement holds for every rounding whose result is within 0.01 of its argument. In a
  run that returns, take the segment at index \<open>i\<close>, with its parsed \<open>start\<close> and \<open>end\<close>.
  Then \<^verbatim>\<open>end >= start\<close>, the \<^verbatim>\<open>durationMinutes\<close> of the slices of the result that come
  from this segment add up to the minutes from \<open>start\<close> to \<open>end\<close> within 0.01 per slice,
  and the \<^verbatim>\<open>durationMinutes\<close> of each of these slices is the rounding of the seconds
  between its two instants divided by 60.
\<close>

theorem duration_sum:
  assumes acc: "\<forall>x. \<bar>round2 x - x\<bar> \<le> 1 / 100"
    and run: "parse_by_day fromisoformat round2 segments incl = Inr out"
    and i: "i < length segments"
    and st: "py_getitem (segments ! i) ''startTime'' = Inr st"
            "parse_iso8601 fromisoformat st = Inr start"
    and et: "py_getitem (segments ! i) ''endTime'' = Inr et"
            "parse_iso8601 fromisoformat et = Inr en"
  shows "dt_ge en start = Inr True
     \<and> \<bar>(\<Sum>s\<leftarrow>slices_from i out. durationMinutes s)
          - real_of_int (utc_us en - utc_us start) / 60000000\<bar>
         \<le> real (length (slices_from i out)) / 100
     \<and> (\<forall>s \<in> set (slices_from i out). \<exists>a b.
          startTime s = dt_isoformat a \<and> endTime s = dt_isoformat b
          \<and> durationMinutes s = round2 (total_seconds (utc_us b - utc_us a) / 60))"
proof -
  let ?S = "slices_of_segment fromisoformat round2 incl"
  let ?g = "\<lambda>p. projr (?S p)"
  let ?ps = "enumerate 0 segments"
  from run obtain kss where
    c: "collect_slices fromisoformat round2 incl ?ps = Inr kss" and out: "out = grouped kss"
    by (rule parse_by_day_Inr)
  from collect_slices_Inr [OF c]
  have all: "list_all2 (\<lambda>p a. ?S p = Inr a) ?ps (map ?g ?ps)"
    and kss: "kss = concat (map ?g ?ps)"
    by simp_all
  have succ: "?S p = Inr (?g p)" if "p \<in> set ?ps" for p
    using all that by (auto simp: list_all2_conv_all_nth in_set_conv_nth)
  have idx: "\<forall>ks \<in> set (?g p). segmentIndex (snd ks) = fst p" if "p \<in> set ?ps" for p
  proof -
    obtain j seg where p: "p = (j, seg)" by (cases p)
    from succ [OF that, unfolded p] obtain st' et' dets ivs where
      "list_all2 (\<lambda>iv ks. make_slice round2 j st' et' dets iv = Inr ks) ivs (?g (j, seg))"
      by (rule slices_of_segment_Inr)
    from make_slices_durations(2) [OF this] show ?thesis unfolding p by simp
  qed
  let ?p = "(i, segments ! i)"
  have mem: "?p \<in> set ?ps" using i by (simp add: in_set_enumerate_eq)
  from succ [OF mem] obtain st' et' start' en' dets ivs where
    a: "py_getitem (segments ! i) ''startTime'' = Inr st'"
       "parse_iso8601 fromisoformat st' = Inr start'"
       "py_getitem (segments ! i) ''endTime'' = Inr et'"
       "parse_iso8601 fromisoformat et' = Inr en'"
    and sp': "split_segment_by_day start' en' = (ivs, None)"
    and l: "list_all2 (\<lambda>iv ks. make_slice round2 i st' et' dets iv = Inr ks) ivs (?g ?p)"
    by (rule slices_of_segment_Inr)
  from a st et have "st' = st" "et' = et" by simp_all
  with a st et have "start' = start" "en' = en" by simp_all
  with sp' have sp: "split_segment_by_day start en = (ivs, None)" by simp
  from split_shape [OF sp] have ne: "ivs \<noteq> []" and hd: "fst (hd ivs) = start"
    and la: "snd (last ivs) = en" and co: "contiguous ivs" and ge: "dt_ge en start = Inr True"
    by simp_all
  have f: "filter (\<lambda>ks. segmentIndex (snd ks) = i) kss = ?g ?p"
    unfolding kss using i idx by (rule slices_of_index)
  have "mset (slices_from i out) = filter_mset (\<lambda>s. segmentIndex s = i) (mset (map snd kss))"
    unfolding slices_from_def out by (simp only: mset_filter grouped_slices_mset)
  also have "\<dots> = mset (filter (\<lambda>s. segmentIndex s = i) (map snd kss))"
    by (simp only: mset_filter)
  also have "\<dots> = mset (map snd (filter (\<lambda>ks. segmentIndex (snd ks) = i) kss))"
    by (simp only: filter_map comp_def)
  finally have m: "mset (slices_from i out) = mset (map snd (?g ?p))"
    unfolding f .
  have len: "length (slices_from i out) = length ivs"
    using mset_eq_length [OF m] make_slices_durations(3) [OF l] by simp
  have "(\<Sum>s\<leftarrow>slices_from i out. durationMinutes s)
      = (\<Sum>s\<leftarrow>map snd (?g ?p). durationMinutes s)"
    using m by (rule sum_list_mset_cong)
  also have "\<dots> = sum_list (map (\<lambda>ks. durationMinutes (snd ks)) (?g ?p))"
    by (simp add: comp_def)
  also have "\<dots> = (\<Sum>iv\<leftarrow>ivs. round2 (exact_minutes iv))"
    by (simp only: make_slices_durations(1) [OF l])
  finally have sum: "(\<Sum>s\<leftarrow>slices_from i out. durationMinutes s)
      = (\<Sum>iv\<leftarrow>ivs. round2 (exact_minutes iv))" .
  have exact: "(\<Sum>iv\<leftarrow>ivs. exact_minutes iv)
      = real_of_int (utc_us en - utc_us start) / 60000000"
    unfolding exact_minutes_sum contiguous_telescope [OF co ne] hd la ..
  have bound: "\<bar>(\<Sum>s\<leftarrow>slices_from i out. durationMinutes s)
          - real_of_int (utc_us en - utc_us start) / 60000000\<bar>
         \<le> real (length (slices_from i out)) / 100"
    using rounded_sum [OF acc, of ivs] unfolding sum len exact .
  have each: "\<exists>a b. startTime s = dt_isoformat a \<and> endTime s = dt_isoformat b
          \<and> durationMinutes s = round2 (total_seconds (utc_us b - utc_us a) / 60)"
    if "s \<in> set (slices_from i out)" for s
  proof -
    from that have "s \<in># mset (slices_from i out)" by simp
    then have "s \<in> set (map snd (?g ?p))" unfolding m by simp
    then obtain n where n: "n < length (?g ?p)" "s = snd (?g ?p ! n)"
      by (auto simp: in_set_conv_nth)
    with l have "make_slice round2 i st' et' dets (ivs ! n) = Inr (?g ?p ! n)"
      by (simp add: list_all2_conv_all_nth)
    from make_slice_Inr(2) [OF this] n(2) show ?thesis
      by (auto simp: duration_minutes_def)
  qed
  from ge bound each show ?thesis by blast
qed

theorem duration_sum_witness:
  "(\<forall>x. \<bar>sample_round2 x - x\<bar> \<le> 1 / 100)
   \<and> parse_by_day sample_fromisoformat sample_round2 [sample_activity, sample_visit] False
       = Inr sample_output
   \<and> py_getitem ([sample_activity, sample_visit] ! 0) ''startTime''
       = Inr (JStr ''2024-01-01T23:30:00Z'')
   \<and> parse_iso8601 sample_fromisoformat (JStr ''2024-01-01T23:30:00Z'') = Inr jan1_2330
   \<and> py_getitem ([sample_activity, sample_visit] ! 0) ''endTime''
       = Inr (JStr ''2024-01-02T00:30:00Z'')
   \<and> parse_iso8601 sample_fromisoformat (JStr ''2024-01-02T00:30:00Z'') = Inr jan2_0030
   \<and> real_of_int (utc_us jan2_0030 - utc_us jan1_2330) / 60000000 = 60
   \<and> map durationMinutes (slices_from 0 sample_output) = [30, 30]
   \<and> \<bar>(\<Sum>s\<leftarrow>slices_from 0 sample_output. durationMinutes s) - 60\<bar> \<le> 2 / 100"
proof -
  have i: "0 < length [sample_activity, sample_visit]" by simp
  have s: "py_getitem ([sample_activity, sample_visit] ! 0) ''startTime''
       = Inr (JStr ''2024-01-01T23:30:00Z'')"
    by (simp add: sample_activity_def segment_of_def py_getitem_def)
  have e: "py_getitem ([sample_activity, sample_visit] ! 0) ''endTime''
       = Inr (JStr ''2024-01-02T00:30:00Z'')"
    by (simp add: sample_activity_def segment_of_def py_getitem_def)
  have d: "real_of_int (utc_us jan2_0030 - utc_us jan1_2330) / 60000000 = 60"
    by (simp add: datetime_eval)
  have f: "map durationMinutes (slices_from 0 sample_output) = [30, 30]"
    by (simp add: slices_from_def sample_output_def mk_slice_def)
  then have n: "length (slices_from 0 sample_output) = 2"
    by (metis length_map length_Cons list.size(3) numeral_2_eq_2)
  from duration_sum [OF sample_round2_accurate sample_run i s sample_parse(1) e sample_parse(2)]
    sample_round2_accurate sample_run s e sample_parse(1,2) d f n
  show ?thesis by simp
qed

end
